theory Spec2Isabelle
  imports Main "HOL-Library.Word"
begin

section \<open>The store of tree nodes\<close>

text \<open>
  The container of \<^verbatim>\<open>set.h\<close> is a pointer structure: every \<^verbatim>\<open>TreeNode\<close> lives at an
  address, holds the addresses of its children and of its parent, and the functions of the
  class mutate nodes in place. The embedding keeps that: a heap maps addresses to nodes, a
  pointer is an optional address (\<open>None\<close> is \<^verbatim>\<open>nullptr\<close>), and every function takes the
  heap and returns the heap it leaves behind.

  The two \<^verbatim>\<open>size_t\<close> fields are 64-bit words, the \<^verbatim>\<open>int\<close> returned by
  \<^verbatim>\<open>getBalance\<close> is a 32-bit word read as two's complement.
\<close>

type_synonym addr = nat
type_synonym ptr = "addr option"

record 'a TreeNode =
  key :: 'a
  height :: "64 word"
  cnt :: "64 word"
  left :: ptr
  right :: ptr
  parent :: ptr

type_synonym 'a heap = "addr \<Rightarrow> 'a TreeNode option"

text \<open>
  What a call can end in besides a normal return: the dereference of a null pointer or of
  a pointer to a released node (undefined behaviour in C++), or a failed allocation
  (\<^verbatim>\<open>std::bad_alloc\<close>). A call that never returns has no result at all: the value \<open>None\<close>
  of the outer option.
\<close>

datatype err = NullDeref | BadAlloc

type_synonym 'r res = "(err + 'r) option"

definition ok :: "'r \<Rightarrow> 'r res" where
  "ok x = Some (Inr x)"

definition raise :: "err \<Rightarrow> 'r res" where
  "raise e = Some (Inl e)"

definition rbind :: "'r res \<Rightarrow> ('r \<Rightarrow> 'q res) \<Rightarrow> 'q res" where
  "rbind m f = (case m of None \<Rightarrow> None | Some (Inl e) \<Rightarrow> Some (Inl e) | Some (Inr x) \<Rightarrow> f x)"

lemma rbind_mono [partial_function_mono]:
  fixes B :: "('a \<Rightarrow> 'b option) \<Rightarrow> 'c res" and C :: "'c \<Rightarrow> ('a \<Rightarrow> 'b option) \<Rightarrow> 'd res"
  assumes mB: "mono_option B" and mC: "\<And>y. mono_option (\<lambda>f. C y f)"
  shows "mono_option (\<lambda>f. rbind (B f) (\<lambda>y. C y f))"
proof (rule monotoneI)
  fix f g :: "'a \<Rightarrow> 'b option"
  assume fg: "fun_ord option_ord f g"
  from mB fg have b: "option_ord (B f) (B g)"
    by (rule monotoneD [of _ _ _ f g])
  from mC have c: "option_ord (C y f) (C y g)" for y
    by (rule monotoneD) (rule fg)
  show "option_ord (rbind (B f) (\<lambda>y. C y f)) (rbind (B g) (\<lambda>y. C y g))"
  proof (cases "B f")
    case None
    then show ?thesis by (simp add: rbind_def flat_ord_def)
  next
    case (Some v)
    with b have "B g = Some v" by (simp add: flat_ord_def)
    with Some c show ?thesis by (cases v) (simp_all add: rbind_def flat_ord_def)
  qed
qed

text \<open>\<^verbatim>\<open>t->...\<close>: reading through a pointer. Null and released addresses are faults.\<close>

definition deref :: "'a heap \<Rightarrow> ptr \<Rightarrow> 'a TreeNode res" where
  "deref h p = (case p of None \<Rightarrow> raise NullDeref
     | Some a \<Rightarrow> (case h a of None \<Rightarrow> raise NullDeref | Some n \<Rightarrow> ok n))"

text \<open>\<^verbatim>\<open>t->left = q\<close>, \<^verbatim>\<open>t->right = q\<close> and \<^verbatim>\<open>t->parent = q\<close>.\<close>

definition assign_left :: "'a heap \<Rightarrow> ptr \<Rightarrow> ptr \<Rightarrow> 'a heap res" where
  "assign_left h t q = (case t of None \<Rightarrow> raise NullDeref
     | Some a \<Rightarrow> rbind (deref h t) (\<lambda>n. ok (h(a \<mapsto> n\<lparr>left := q\<rparr>))))"

definition assign_right :: "'a heap \<Rightarrow> ptr \<Rightarrow> ptr \<Rightarrow> 'a heap res" where
  "assign_right h t q = (case t of None \<Rightarrow> raise NullDeref
     | Some a \<Rightarrow> rbind (deref h t) (\<lambda>n. ok (h(a \<mapsto> n\<lparr>right := q\<rparr>))))"

definition assign_parent :: "'a heap \<Rightarrow> ptr \<Rightarrow> ptr \<Rightarrow> 'a heap res" where
  "assign_parent h t q = (case t of None \<Rightarrow> raise NullDeref
     | Some a \<Rightarrow> rbind (deref h t) (\<lambda>n. ok (h(a \<mapsto> n\<lparr>parent := q\<rparr>))))"

subsection \<open>Allocation\<close>

text \<open>
  \<^verbatim>\<open>new TreeNode(...)\<close> takes the first free address below \<open>heap_limit\<close> and throws when
  there is none: addresses are 64-bit and the null address holds no node.
  \<^verbatim>\<open>delete t\<close> frees the address of \<open>t\<close>, which a later allocation may reuse.
\<close>

definition heap_limit :: nat where
  "heap_limit = 2 ^ 64 - 1"

function first_free :: "'a heap \<Rightarrow> nat \<Rightarrow> addr option" where
  "first_free h a =
     (if heap_limit \<le> a then None
      else if h a = None then Some a
      else first_free h (Suc a))"
  by pat_completeness auto
termination
  by (relation "measure (\<lambda>(h, a). heap_limit - a)") auto

declare first_free.simps [simp del]

definition alloc :: "'a heap \<Rightarrow> 'a TreeNode \<Rightarrow> (ptr \<times> 'a heap) res" where
  "alloc h n = (case first_free h 0 of None \<Rightarrow> raise BadAlloc
     | Some a \<Rightarrow> ok (Some a, h(a \<mapsto> n)))"

text \<open>
  The constructor \<^verbatim>\<open>TreeNode(const ValueType& key, TreeNode* parent = nullptr)\<close> with the
  default member initialisers \<^verbatim>\<open>height = 1, cnt = 1, left = nullptr, right = nullptr\<close>.
\<close>

definition new_TreeNode :: "'a heap \<Rightarrow> 'a \<Rightarrow> ptr \<Rightarrow> (ptr \<times> 'a heap) res" where
  "new_TreeNode h k par =
     alloc h \<lparr>key = k, height = 1, cnt = 1, left = None, right = None, parent = par\<rparr>"

text \<open>\<^verbatim>\<open>delete t\<close> for a non-null \<open>t\<close>: releasing a released node is a fault.\<close>

definition delete_node :: "'a heap \<Rightarrow> ptr \<Rightarrow> 'a heap res" where
  "delete_node h t = (case t of None \<Rightarrow> ok h
     | Some a \<Rightarrow> rbind (deref h t) (\<lambda>n. ok (h(a := None))))"

section \<open>Helper functions\<close>

text \<open>
  \<^verbatim>\<open>size_t height(const TreeNode* t) { return t ? t->height : 0; }\<close> and
  \<^verbatim>\<open>size_t cnt(const TreeNode* t) { return t ? t->cnt : 0; }\<close>
\<close>

definition height_of :: "'a heap \<Rightarrow> ptr \<Rightarrow> 64 word res" where
  "height_of h t = (case t of None \<Rightarrow> ok 0 | Some a \<Rightarrow> rbind (deref h t) (\<lambda>n. ok (height n)))"

definition cnt_of :: "'a heap \<Rightarrow> ptr \<Rightarrow> 64 word res" where
  "cnt_of h t = (case t of None \<Rightarrow> ok 0 | Some a \<Rightarrow> rbind (deref h t) (\<lambda>n. ok (cnt n)))"

text \<open>
  \<^verbatim>\<open>int getBalance(const TreeNode* t) { return height(t->right) - height(t->left); }\<close>
  The subtraction is done on \<^verbatim>\<open>size_t\<close> and wraps; the result is converted to \<^verbatim>\<open>int\<close>,
  which keeps the low 32 bits.
\<close>

definition getBalance :: "'a heap \<Rightarrow> ptr \<Rightarrow> 32 word res" where
  "getBalance h t =
     rbind (deref h t) (\<lambda>n.
     rbind (height_of h (right n)) (\<lambda>hr.
     rbind (height_of h (left n)) (\<lambda>hl.
     ok (ucast (hr - hl)))))"

text \<open>
  \<^verbatim>\<open>update\<close> recomputes the cached fields of \<open>t\<close> from those of its children, clears
  the parent pointer of \<open>t\<close> and points the children back to \<open>t\<close>.
\<close>

definition set_child_parent :: "'a heap \<Rightarrow> ptr \<Rightarrow> ptr \<Rightarrow> 'a heap res" where
  "set_child_parent h c t = (case c of None \<Rightarrow> ok h | Some ca \<Rightarrow> assign_parent h c t)"

definition update :: "'a heap \<Rightarrow> ptr \<Rightarrow> 'a heap res" where
  "update h t = (case t of None \<Rightarrow> ok h
     | Some a \<Rightarrow>
        rbind (deref h t) (\<lambda>n.
        rbind (height_of h (left n)) (\<lambda>hl.
        rbind (height_of h (right n)) (\<lambda>hr.
        rbind (cnt_of h (left n)) (\<lambda>cl.
        rbind (cnt_of h (right n)) (\<lambda>cr.
        rbind (set_child_parent
                 (h(a \<mapsto> n\<lparr>height := max hl hr + 1, cnt := cl + 1 + cr, parent := None\<rparr>))
                 (left n) t) (\<lambda>h1.
        set_child_parent h1 (right n) t)))))))"

definition isKeyEqual :: "'a::linorder \<Rightarrow> 'a \<Rightarrow> bool" where
  "isKeyEqual a b = (\<not> a < b \<and> \<not> b < a)"

section \<open>Balance\<close>

text \<open>
  A parameter of type \<^verbatim>\<open>TreeNode*&\<close> is a slot that the callee may overwrite. The
  embedding passes the pointer held in the slot and returns the pointer the slot holds at
  the end; the caller stores it back where the slot lives (a child field, the root field
  or a local variable).
\<close>

definition rotateRight :: "'a heap \<Rightarrow> ptr \<Rightarrow> (ptr \<times> 'a heap) res" where
  "rotateRight h u =
     rbind (deref h u) (\<lambda>un. let v = left un in
     rbind (deref h v) (\<lambda>vn.
     rbind (assign_left h u (right vn)) (\<lambda>h1.
     rbind (assign_right h1 v u) (\<lambda>h2.
     rbind (update h2 u) (\<lambda>h3.
     rbind (update h3 v) (\<lambda>h4.
     ok (v, h4)))))))"

definition rotateLeft :: "'a heap \<Rightarrow> ptr \<Rightarrow> (ptr \<times> 'a heap) res" where
  "rotateLeft h v =
     rbind (deref h v) (\<lambda>vn. let u = right vn in
     rbind (deref h u) (\<lambda>un.
     rbind (assign_right h v (left un)) (\<lambda>h1.
     rbind (assign_left h1 u v) (\<lambda>h2.
     rbind (update h2 v) (\<lambda>h3.
     rbind (update h3 u) (\<lambda>h4.
     ok (u, h4)))))))"

definition balance :: "'a heap \<Rightarrow> ptr \<Rightarrow> (ptr \<times> 'a heap) res" where
  "balance h t = (case t of None \<Rightarrow> ok (None, h)
     | Some a \<Rightarrow>
        rbind (update h t) (\<lambda>h1.
        rbind (getBalance h1 t) (\<lambda>t_balance.
        if t_balance = 2 then
          rbind (deref h1 t) (\<lambda>n.
          rbind (getBalance h1 (right n)) (\<lambda>b.
          rbind (if sint b < 0
                 then rbind (rotateRight h1 (right n)) (\<lambda>(r, h2). assign_right h2 t r)
                 else ok h1) (\<lambda>h3.
          rotateLeft h3 t)))
        else if t_balance = - 2 then
          rbind (deref h1 t) (\<lambda>n.
          rbind (getBalance h1 (left n)) (\<lambda>b.
          rbind (if 0 < sint b
                 then rbind (rotateLeft h1 (left n)) (\<lambda>(l, h2). assign_left h2 t l)
                 else ok h1) (\<lambda>h3.
          rotateRight h3 t)))
        else ok (t, h1))))"

section \<open>Methods\<close>

text \<open>
  The searches and the cursor steps write nothing, but they are embedded like every other
  function, returning the heap next to their result.
\<close>

partial_function (option) findMin :: "'a heap \<Rightarrow> ptr \<Rightarrow> (ptr \<times> 'a heap) res" where
  "findMin h t = (case t of None \<Rightarrow> ok (t, h)
     | Some a \<Rightarrow> rbind (deref h t) (\<lambda>n.
         case left n of None \<Rightarrow> ok (t, h) | Some l \<Rightarrow> findMin h (left n)))"

partial_function (option) findMax :: "'a heap \<Rightarrow> ptr \<Rightarrow> (ptr \<times> 'a heap) res" where
  "findMax h t = (case t of None \<Rightarrow> ok (t, h)
     | Some a \<Rightarrow> rbind (deref h t) (\<lambda>n.
         case right n of None \<Rightarrow> ok (t, h) | Some r \<Rightarrow> findMax h (right n)))"

partial_function (option) eraseMin :: "'a heap \<Rightarrow> ptr \<Rightarrow> (ptr \<times> 'a heap) res" where
  "eraseMin h t =
     rbind (deref h t) (\<lambda>n.
       case left n of None \<Rightarrow> ok (right n, h)
       | Some l \<Rightarrow>
           rbind (eraseMin h (left n)) (\<lambda>(l', h1).
           rbind (assign_left h1 t l') (\<lambda>h2.
           balance h2 t)))"

partial_function (option) eraseMax :: "'a heap \<Rightarrow> ptr \<Rightarrow> (ptr \<times> 'a heap) res" where
  "eraseMax h t =
     rbind (deref h t) (\<lambda>n.
       case right n of None \<Rightarrow> ok (left n, h)
       | Some r \<Rightarrow>
           rbind (eraseMax h (right n)) (\<lambda>(r', h1).
           rbind (assign_right h1 t r') (\<lambda>h2.
           balance h2 t)))"

text \<open>The loops of \<^verbatim>\<open>nextNode\<close> and \<^verbatim>\<open>prevNode\<close>, which climb the parent pointers.\<close>

partial_function (option) nextNode_loop :: "'a heap \<Rightarrow> ptr \<Rightarrow> (ptr \<times> 'a heap) res" where
  "nextNode_loop h t =
     rbind (deref h t) (\<lambda>n.
       case parent n of None \<Rightarrow> ok (parent n, h)
       | Some pa \<Rightarrow> rbind (deref h (parent n)) (\<lambda>pn.
           if right pn = t then nextNode_loop h (parent n) else ok (parent n, h)))"

partial_function (option) prevNode_loop :: "'a heap \<Rightarrow> ptr \<Rightarrow> (ptr \<times> 'a heap) res" where
  "prevNode_loop h t =
     rbind (deref h t) (\<lambda>n.
       case parent n of None \<Rightarrow> ok (parent n, h)
       | Some pa \<Rightarrow> rbind (deref h (parent n)) (\<lambda>pn.
           if left pn = t then prevNode_loop h (parent n) else ok (parent n, h)))"

definition nextNode :: "'a heap \<Rightarrow> ptr \<Rightarrow> (ptr \<times> 'a heap) res" where
  "nextNode h t =
     rbind (deref h t) (\<lambda>n.
       case right n of Some r \<Rightarrow> findMin h (right n) | None \<Rightarrow> nextNode_loop h t)"

definition prevNode :: "'a heap \<Rightarrow> ptr \<Rightarrow> (ptr \<times> 'a heap) res" where
  "prevNode h t =
     rbind (deref h t) (\<lambda>n.
       case left n of Some l \<Rightarrow> findMax h (left n) | None \<Rightarrow> prevNode_loop h t)"

partial_function (option) AVLInsert ::
    "'a::linorder heap \<Rightarrow> ptr \<Rightarrow> 'a \<Rightarrow> ptr \<Rightarrow> (ptr \<times> 'a heap) res" where
  "AVLInsert h t k par =
     rbind (case t of None \<Rightarrow> new_TreeNode h k par | Some a \<Rightarrow> ok (t, h)) (\<lambda>(t1, h1).
     rbind (deref h1 t1) (\<lambda>n.
       if isKeyEqual (key n) k then ok (t1, h1)
       else if key n < k then
         rbind (AVLInsert h1 (right n) k t1) (\<lambda>(r, h2).
         rbind (assign_right h2 t1 r) (\<lambda>h3.
         balance h3 t1))
       else
         rbind (AVLInsert h1 (left n) k t1) (\<lambda>(l, h2).
         rbind (assign_left h2 t1 l) (\<lambda>h3.
         balance h3 t1))))"

partial_function (option) AVLErase ::
    "'a::linorder heap \<Rightarrow> ptr \<Rightarrow> 'a \<Rightarrow> (ptr \<times> 'a heap) res" where
  "AVLErase h t k = (case t of None \<Rightarrow> ok (t, h)
     | Some a \<Rightarrow>
        rbind (deref h t) (\<lambda>n.
        rbind
          (if isKeyEqual (key n) k then
             let l = left n; r = right n in
             rbind (delete_node h t) (\<lambda>h1.
               case r of None \<Rightarrow> ok (l, h1)
               | Some ra \<Rightarrow>
                   rbind (findMin h1 r) (\<lambda>(m, h2).
                   rbind (eraseMin h2 r) (\<lambda>(r', h3).
                   rbind (assign_right h3 m r') (\<lambda>h4.
                   rbind (assign_left h4 m l) (\<lambda>h5.
                   ok (m, h5))))))
           else if key n < k then
             rbind (AVLErase h (right n) k) (\<lambda>(r, h1).
             rbind (assign_right h1 t r) (\<lambda>h2. ok (t, h2)))
           else
             rbind (AVLErase h (left n) k) (\<lambda>(l, h1).
             rbind (assign_left h1 t l) (\<lambda>h2. ok (t, h2))))
          (\<lambda>(t1, h1). balance h1 t1)))"

partial_function (option) AVLFind ::
    "'a::linorder heap \<Rightarrow> ptr \<Rightarrow> 'a \<Rightarrow> (ptr \<times> 'a heap) res" where
  "AVLFind h t k = (case t of None \<Rightarrow> ok (None, h)
     | Some a \<Rightarrow>
        rbind (deref h t) (\<lambda>n.
          if isKeyEqual (key n) k then ok (t, h)
          else if key n < k then AVLFind h (right n) k
          else AVLFind h (left n) k))"

partial_function (option) AVLLowerBound ::
    "'a::linorder heap \<Rightarrow> ptr \<Rightarrow> 'a \<Rightarrow> (ptr \<times> 'a heap) res" where
  "AVLLowerBound h t k = (case t of None \<Rightarrow> ok (None, h)
     | Some a \<Rightarrow>
        rbind (deref h t) (\<lambda>n.
          if isKeyEqual (key n) k then ok (t, h)
          else if k < key n then
            rbind (AVLLowerBound h (left n) k) (\<lambda>(tmp, h1).
              case tmp of Some x \<Rightarrow> ok (tmp, h1) | None \<Rightarrow> ok (t, h1))
          else AVLLowerBound h (right n) k))"

text \<open>
  \<^verbatim>\<open>to = new TreeNode(*from)\<close> copies every field of \<open>from\<close>, the three pointers
  included; the recursive calls then overwrite the two child slots of the copy.
\<close>

partial_function (option) copyTree :: "'a heap \<Rightarrow> ptr \<Rightarrow> (ptr \<times> 'a heap) res" where
  "copyTree h from = (case from of None \<Rightarrow> ok (None, h)
     | Some fa \<Rightarrow>
        rbind (deref h from) (\<lambda>fn.
        rbind (alloc h fn) (\<lambda>(to, h1).
        rbind (deref h1 from) (\<lambda>fn1.
        rbind (copyTree h1 (left fn1)) (\<lambda>(l, h2).
        rbind (assign_left h2 to l) (\<lambda>h3.
        rbind (deref h3 from) (\<lambda>fn3.
        rbind (copyTree h3 (right fn3)) (\<lambda>(r, h4).
        rbind (assign_right h4 to r) (\<lambda>h5.
        rbind (update h5 to) (\<lambda>h6.
        ok (to, h6)))))))))))"

partial_function (option) deleteTree :: "'a heap \<Rightarrow> ptr \<Rightarrow> (ptr \<times> 'a heap) res" where
  "deleteTree h t = (case t of None \<Rightarrow> ok (t, h)
     | Some a \<Rightarrow>
        rbind (deref h t) (\<lambda>n.
        rbind (deleteTree h (left n)) (\<lambda>(l, h1).
        rbind (assign_left h1 t l) (\<lambda>h2.
        rbind (deref h2 t) (\<lambda>n2.
        rbind (deleteTree h2 (right n2)) (\<lambda>(r, h3).
        rbind (assign_right h3 t r) (\<lambda>h4.
        rbind (delete_node h4 t) (\<lambda>h5.
        ok (None, h5)))))))))"

section \<open>The container and its cursors\<close>

text \<open>
  A \<^verbatim>\<open>Set\<close> object has the one field \<^verbatim>\<open>root\<close>. Several sets share the heap; a set is
  named by the address of its object, and the state records the root field of each.
\<close>

type_synonym sid = nat

record 'a state =
  nodes :: "'a heap"
  root :: "sid \<Rightarrow> ptr"

text \<open>A cursor: \<^verbatim>\<open>TreeNode* node\<close> and \<^verbatim>\<open>const Set* parent\<close>.\<close>

record iterator =
  it_node :: ptr
  it_parent :: sid

definition set_root :: "'a state \<Rightarrow> sid \<Rightarrow> (ptr \<times> 'a heap) \<Rightarrow> 'a state" where
  "set_root s i rh = s\<lparr>nodes := snd rh, root := (root s)(i := fst rh)\<rparr>"

definition init_state :: "'a state" where
  "init_state = \<lparr>nodes = Map.empty, root = (\<lambda>i. None)\<rparr>"

definition insert_op :: "'a::linorder state \<Rightarrow> sid \<Rightarrow> 'a \<Rightarrow> 'a state res" where
  "insert_op s i v =
     rbind (AVLInsert (nodes s) (root s i) v None) (\<lambda>rh. ok (set_root s i rh))"

definition erase_op :: "'a::linorder state \<Rightarrow> sid \<Rightarrow> 'a \<Rightarrow> 'a state res" where
  "erase_op s i v =
     rbind (AVLErase (nodes s) (root s i) v) (\<lambda>rh. ok (set_root s i rh))"

definition size_op :: "'a state \<Rightarrow> sid \<Rightarrow> (64 word \<times> 'a state) res" where
  "size_op s i = rbind (cnt_of (nodes s) (root s i)) (\<lambda>c. ok (c, s))"

definition empty_op :: "'a state \<Rightarrow> sid \<Rightarrow> (bool \<times> 'a state) res" where
  "empty_op s i = rbind (size_op s i) (\<lambda>(c, s1). ok (c = 0, s1))"

definition begin_op :: "'a state \<Rightarrow> sid \<Rightarrow> (iterator \<times> 'a state) res" where
  "begin_op s i =
     rbind (findMin (nodes s) (root s i)) (\<lambda>(p, h).
     ok (\<lparr>it_node = p, it_parent = i\<rparr>, s\<lparr>nodes := h\<rparr>))"

definition end_op :: "'a state \<Rightarrow> sid \<Rightarrow> (iterator \<times> 'a state) res" where
  "end_op s i = ok (\<lparr>it_node = None, it_parent = i\<rparr>, s)"

definition find_op :: "'a::linorder state \<Rightarrow> sid \<Rightarrow> 'a \<Rightarrow> (iterator \<times> 'a state) res" where
  "find_op s i k =
     rbind (AVLFind (nodes s) (root s i) k) (\<lambda>(p, h).
     ok (\<lparr>it_node = p, it_parent = i\<rparr>, s\<lparr>nodes := h\<rparr>))"

definition lower_bound_op :: "'a::linorder state \<Rightarrow> sid \<Rightarrow> 'a \<Rightarrow> (iterator \<times> 'a state) res" where
  "lower_bound_op s i k =
     rbind (AVLLowerBound (nodes s) (root s i) k) (\<lambda>(p, h).
     ok (\<lparr>it_node = p, it_parent = i\<rparr>, s\<lparr>nodes := h\<rparr>))"

text \<open>\<^verbatim>\<open>operator++\<close>, \<^verbatim>\<open>operator--\<close>, \<^verbatim>\<open>operator*\<close> and \<^verbatim>\<open>operator==\<close> of a cursor.\<close>

definition it_incr :: "'a state \<Rightarrow> iterator \<Rightarrow> (iterator \<times> 'a state) res" where
  "it_incr s it =
     rbind (nextNode (nodes s) (it_node it)) (\<lambda>(p, h).
     ok (it\<lparr>it_node := p\<rparr>, s\<lparr>nodes := h\<rparr>))"

definition it_decr :: "'a state \<Rightarrow> iterator \<Rightarrow> (iterator \<times> 'a state) res" where
  "it_decr s it =
     rbind (case it_node it of Some a \<Rightarrow> prevNode (nodes s) (it_node it)
            | None \<Rightarrow> findMax (nodes s) (root s (it_parent it))) (\<lambda>(p, h).
     ok (it\<lparr>it_node := p\<rparr>, s\<lparr>nodes := h\<rparr>))"

definition it_deref :: "'a state \<Rightarrow> iterator \<Rightarrow> ('a \<times> 'a state) res" where
  "it_deref s it = rbind (deref (nodes s) (it_node it)) (\<lambda>n. ok (key n, s))"

definition it_eq :: "iterator \<Rightarrow> iterator \<Rightarrow> bool" where
  "it_eq x y = (it_node x = it_node y \<and> it_parent x = it_parent y)"

text \<open>
  The copy constructor builds the tree of a new object \<open>i\<close> from that of \<open>other\<close>; the
  copy assignment releases the tree of \<open>i\<close> first, unless \<open>i\<close> is \<open>other\<close> itself.
\<close>

definition copy_construct :: "'a state \<Rightarrow> sid \<Rightarrow> sid \<Rightarrow> 'a state res" where
  "copy_construct s i other =
     rbind (copyTree (nodes s) (root s other)) (\<lambda>rh. ok (set_root s i rh))"

definition copy_assign :: "'a state \<Rightarrow> sid \<Rightarrow> sid \<Rightarrow> 'a state res" where
  "copy_assign s i other =
     (if i \<noteq> other then
        rbind (deleteTree (nodes s) (root s i)) (\<lambda>rh.
        let s1 = set_root s i rh in
        rbind (copyTree (nodes s1) (root s1 other)) (\<lambda>rh1. ok (set_root s1 i rh1)))
      else ok s)"

section \<open>Ghost trees: the shape a heap region represents\<close>

datatype 'a gtree = GLeaf | GNode "'a gtree" addr 'a "'a gtree"

fun inorder :: "'a gtree \<Rightarrow> (addr \<times> 'a) list" where
  "inorder GLeaf = []"
| "inorder (GNode l a k r) = inorder l @ (a, k) # inorder r"

fun addrs :: "'a gtree \<Rightarrow> addr set" where
  "addrs GLeaf = {}"
| "addrs (GNode l a k r) = insert a (addrs l \<union> addrs r)"

fun keys :: "'a gtree \<Rightarrow> 'a set" where
  "keys GLeaf = {}"
| "keys (GNode l a k r) = insert k (keys l \<union> keys r)"

fun ht :: "'a gtree \<Rightarrow> nat" where
  "ht GLeaf = 0"
| "ht (GNode l a k r) = max (ht l) (ht r) + 1"

fun sz :: "'a gtree \<Rightarrow> nat" where
  "sz GLeaf = 0"
| "sz (GNode l a k r) = sz l + 1 + sz r"

fun bst :: "'a::linorder gtree \<Rightarrow> bool" where
  "bst GLeaf = True"
| "bst (GNode l a k r) = (bst l \<and> bst r \<and> (\<forall>x \<in> keys l. x < k) \<and> (\<forall>x \<in> keys r. k < x))"

fun avl :: "'a gtree \<Rightarrow> bool" where
  "avl GLeaf = True"
| "avl (GNode l a k r) = (avl l \<and> avl r \<and> \<bar>int (ht l) - int (ht r)\<bar> \<le> 1)"

fun root_ptr :: "'a gtree \<Rightarrow> ptr" where
  "root_ptr GLeaf = None"
| "root_ptr (GNode l a k r) = Some a"

fun bal :: "'a gtree \<Rightarrow> int" where
  "bal GLeaf = 0"
| "bal (GNode l a k r) = int (ht r) - int (ht l)"

fun g_rotateRight :: "'a gtree \<Rightarrow> 'a gtree" where
  "g_rotateRight (GNode (GNode A v kv B) u ku C) = GNode A v kv (GNode B u ku C)"
| "g_rotateRight t = t"

fun g_rotateLeft :: "'a gtree \<Rightarrow> 'a gtree" where
  "g_rotateLeft (GNode A v kv (GNode B u ku C)) = GNode (GNode A v kv B) u ku C"
| "g_rotateLeft t = t"

fun g_balance :: "'a gtree \<Rightarrow> 'a gtree" where
  "g_balance GLeaf = GLeaf"
| "g_balance (GNode l a k r) =
     (if bal (GNode l a k r) = 2 then
        g_rotateLeft (GNode l a k (if bal r < 0 then g_rotateRight r else r))
      else if bal (GNode l a k r) = - 2 then
        g_rotateRight (GNode (if 0 < bal l then g_rotateLeft l else l) a k r)
      else GNode l a k r)"

fun g_insert :: "addr \<Rightarrow> 'a::linorder \<Rightarrow> 'a gtree \<Rightarrow> 'a gtree" where
  "g_insert x k GLeaf = GNode GLeaf x k GLeaf"
| "g_insert x k (GNode l a ka r) =
     (if isKeyEqual ka k then GNode l a ka r
      else if ka < k then g_balance (GNode l a ka (g_insert x k r))
      else g_balance (GNode (g_insert x k l) a ka r))"

fun g_findMin :: "'a gtree \<Rightarrow> 'a gtree" where
  "g_findMin GLeaf = GLeaf"
| "g_findMin (GNode l a k r) = (if l = GLeaf then GNode l a k r else g_findMin l)"

fun g_eraseMin :: "'a gtree \<Rightarrow> 'a gtree" where
  "g_eraseMin GLeaf = GLeaf"
| "g_eraseMin (GNode l a k r) =
     (if l = GLeaf then r else g_balance (GNode (g_eraseMin l) a k r))"

fun g_erase :: "'a::linorder \<Rightarrow> 'a gtree \<Rightarrow> 'a gtree" where
  "g_erase k GLeaf = GLeaf"
| "g_erase k (GNode l a ka r) =
     g_balance
       (if isKeyEqual ka k then
          (case g_findMin r of GLeaf \<Rightarrow> l
           | GNode ml m km mr \<Rightarrow> GNode l m km (g_eraseMin r))
        else if ka < k then GNode l a ka (g_erase k r)
        else GNode (g_erase k l) a ka r)"

lemma isKeyEqual_iff [simp]: "isKeyEqual a b \<longleftrightarrow> a = b"
  by (auto simp: isKeyEqual_def)

lemma addrs_inorder: "addrs t = fst ` set (inorder t)"
  by (induction t) auto

lemma keys_inorder: "keys t = snd ` set (inorder t)"
  by (induction t) auto

lemma sz_inorder: "sz t = length (inorder t)"
  by (induction t) auto

lemma bst_iff_sorted: "bst t \<longleftrightarrow> sorted_wrt (<) (map snd (inorder t))"
  by (induction t) (fastforce simp: sorted_wrt_append keys_inorder)+

lemma inorder_g_rotateRight [simp]: "inorder (g_rotateRight t) = inorder t"
  by (induction t rule: g_rotateRight.induct) auto

lemma inorder_g_rotateLeft [simp]: "inorder (g_rotateLeft t) = inorder t"
  by (induction t rule: g_rotateLeft.induct) auto

lemma inorder_g_balance [simp]: "inorder (g_balance t) = inorder t"
  by (cases t) auto

lemma ht_le_sz: "ht t \<le> sz t"
  by (induction t) auto

lemma g_balance_id: "\<bar>bal t\<bar> \<le> 1 \<Longrightarrow> g_balance t = t"
  by (cases t) auto

lemma avl_g_balance:
  assumes "avl l" "avl r" "\<bar>int (ht l) - int (ht r)\<bar> \<le> 2"
  shows "avl (g_balance (GNode l a k r)) \<and>
         (ht (g_balance (GNode l a k r)) = max (ht l) (ht r) + 1 \<or>
          ht (g_balance (GNode l a k r)) = max (ht l) (ht r) \<and> \<bar>int (ht l) - int (ht r)\<bar> = 2)"
proof -
  consider "int (ht r) - int (ht l) = 2" | "int (ht r) - int (ht l) = - 2"
    | "\<bar>int (ht l) - int (ht r)\<bar> \<le> 1"
    using assms(3) by linarith
  then show ?thesis
  proof cases
    case 1
    then obtain rl ra rk rr where r: "r = GNode rl ra rk rr" by (cases r) auto
    show ?thesis
    proof (cases "int (ht rr) - int (ht rl) < 0")
      case True
      then obtain A b kb B where rl: "rl = GNode A b kb B" by (cases rl) auto
      with 1 r True assms show ?thesis by (auto simp: max_def split: if_splits)
    next
      case False
      with 1 r assms show ?thesis by (auto simp: max_def split: if_splits)
    qed
  next
    case 2
    then obtain ll la lk lr where l: "l = GNode ll la lk lr" by (cases l) auto
    show ?thesis
    proof (cases "0 < int (ht lr) - int (ht ll)")
      case True
      then obtain A b kb B where lr: "lr = GNode A b kb B" by (cases lr) auto
      with 2 l True assms show ?thesis by (auto simp: max_def split: if_splits)
    next
      case False
      with 2 l assms show ?thesis by (auto simp: max_def split: if_splits)
    qed
  next
    case 3
    with assms show ?thesis by auto
  qed
qed

section \<open>Abstraction: when a heap holds a tree\<close>

fun tree_at :: "'a heap \<Rightarrow> 'a gtree \<Rightarrow> bool" where
  "tree_at h GLeaf = True"
| "tree_at h (GNode l a k r) =
     (a < heap_limit \<and> a \<notin> addrs l \<and> a \<notin> addrs r \<and> addrs l \<inter> addrs r = {} \<and>
      (case h a of None \<Rightarrow> False
       | Some n \<Rightarrow> key n = k \<and> left n = root_ptr l \<and> right n = root_ptr r) \<and>
      tree_at h l \<and> tree_at h r)"

fun cached_ok :: "'a heap \<Rightarrow> 'a gtree \<Rightarrow> bool" where
  "cached_ok h GLeaf = True"
| "cached_ok h (GNode l a k r) =
     ((case h a of None \<Rightarrow> False
       | Some n \<Rightarrow> unat (height n) = ht (GNode l a k r) \<and> unat (cnt n) = sz (GNode l a k r)) \<and>
      cached_ok h l \<and> cached_ok h r)"

fun parents_ok :: "'a heap \<Rightarrow> ptr \<Rightarrow> 'a gtree \<Rightarrow> bool" where
  "parents_ok h par GLeaf = True"
| "parents_ok h par (GNode l a k r) =
     ((case h a of None \<Rightarrow> False | Some n \<Rightarrow> parent n = par) \<and>
      parents_ok h (Some a) l \<and> parents_ok h (Some a) r)"

fun kids_ok :: "'a heap \<Rightarrow> 'a gtree \<Rightarrow> bool" where
  "kids_ok h GLeaf = True"
| "kids_ok h (GNode l a k r) = (parents_ok h (Some a) l \<and> parents_ok h (Some a) r)"

definition wft :: "'a heap \<Rightarrow> 'a gtree \<Rightarrow> bool" where
  "wft h t = (tree_at h t \<and> cached_ok h t \<and> kids_ok h t)"

definition frame :: "addr set \<Rightarrow> 'a heap \<Rightarrow> 'a heap \<Rightarrow> bool" where
  "frame A h h' = (\<forall>x. x \<notin> A \<longrightarrow> h' x = h x)"

subsection \<open>monad laws\<close>

lemma rbind_ok [simp]: "rbind (ok x) f = f x"
  by (simp add: rbind_def ok_def)

lemma rbind_raise [simp]: "rbind (raise e) f = raise e"
  by (simp add: rbind_def raise_def)

lemma rbind_None [simp]: "rbind None f = None"
  by (simp add: rbind_def)

lemma ok_inject [simp]: "ok x = ok y \<longleftrightarrow> x = y"
  by (simp add: ok_def)

lemma ok_neq [simp]: "ok x \<noteq> raise e" "raise e \<noteq> ok x" "ok x \<noteq> None" "None \<noteq> ok x"
  "raise e \<noteq> None" "None \<noteq> raise e"
  by (simp_all add: ok_def raise_def)

lemma raise_inject [simp]: "raise e = raise e' \<longleftrightarrow> e = e'"
  by (simp add: raise_def)

lemma deref_Some [simp]: "h a = Some n \<Longrightarrow> deref h (Some a) = ok n"
  by (simp add: deref_def)

lemma deref_None [simp]: "deref h None = raise NullDeref"
  by (simp add: deref_def)

subsection \<open>which fields the predicates read\<close>

lemma tree_at_cong:
  "\<forall>x \<in> addrs t. map_option (\<lambda>n. (key n, left n, right n)) (h' x)
       = map_option (\<lambda>n. (key n, left n, right n)) (h x)
   \<Longrightarrow> tree_at h' t = tree_at h t"
proof (induction t)
  case GLeaf
  then show ?case by simp
next
  case (GNode l a k r)
  from GNode.prems have "map_option (\<lambda>n. (key n, left n, right n)) (h' a)
       = map_option (\<lambda>n. (key n, left n, right n)) (h a)" by simp
  then have "(case h' a of None \<Rightarrow> False
       | Some n \<Rightarrow> key n = k \<and> left n = root_ptr l \<and> right n = root_ptr r) =
     (case h a of None \<Rightarrow> False
       | Some n \<Rightarrow> key n = k \<and> left n = root_ptr l \<and> right n = root_ptr r)"
    by (cases "h a"; cases "h' a") auto
  moreover have "tree_at h' l = tree_at h l" "tree_at h' r = tree_at h r"
    using GNode by auto
  ultimately show ?case by simp
qed

lemma cached_ok_cong:
  "\<forall>x \<in> addrs t. map_option (\<lambda>n. (height n, cnt n)) (h' x)
       = map_option (\<lambda>n. (height n, cnt n)) (h x)
   \<Longrightarrow> cached_ok h' t = cached_ok h t"
proof (induction t)
  case GLeaf
  then show ?case by simp
next
  case (GNode l a k r)
  from GNode.prems have "map_option (\<lambda>n. (height n, cnt n)) (h' a)
       = map_option (\<lambda>n. (height n, cnt n)) (h a)" by simp
  then have "(case h' a of None \<Rightarrow> False
       | Some n \<Rightarrow> unat (height n) = ht (GNode l a k r) \<and> unat (cnt n) = sz (GNode l a k r)) =
     (case h a of None \<Rightarrow> False
       | Some n \<Rightarrow> unat (height n) = ht (GNode l a k r) \<and> unat (cnt n) = sz (GNode l a k r))"
    by (cases "h a"; cases "h' a") auto
  moreover have "cached_ok h' l = cached_ok h l" "cached_ok h' r = cached_ok h r"
    using GNode by auto
  ultimately show ?case by simp
qed

lemma parents_ok_cong:
  "\<forall>x \<in> addrs t. map_option parent (h' x) = map_option parent (h x)
   \<Longrightarrow> parents_ok h' par t = parents_ok h par t"
proof (induction t arbitrary: par)
  case GLeaf
  then show ?case by simp
next
  case (GNode l a k r)
  from GNode.prems have "map_option parent (h' a) = map_option parent (h a)" by simp
  then have "(case h' a of None \<Rightarrow> False | Some n \<Rightarrow> parent n = par) =
     (case h a of None \<Rightarrow> False | Some n \<Rightarrow> parent n = par)"
    by (cases "h a"; cases "h' a") auto
  moreover have "parents_ok h' (Some a) l = parents_ok h (Some a) l"
      "parents_ok h' (Some a) r = parents_ok h (Some a) r"
    using GNode by auto
  ultimately show ?case by simp
qed

lemma kids_ok_cong:
  "\<forall>x \<in> addrs t. map_option parent (h' x) = map_option parent (h x)
   \<Longrightarrow> kids_ok h' t = kids_ok h t"
  by (cases t) (auto intro!: arg_cong2 [where f = "(\<and>)"] parents_ok_cong)

lemma wft_frame: "frame A h h' \<Longrightarrow> addrs t \<inter> A = {} \<Longrightarrow> wft h' t = wft h t"
  unfolding wft_def frame_def
  by (intro arg_cong2 [where f = "(\<and>)"] tree_at_cong cached_ok_cong kids_ok_cong) auto

lemma parents_ok_frame:
  "frame A h h' \<Longrightarrow> addrs t \<inter> A = {} \<Longrightarrow> parents_ok h' par t = parents_ok h par t"
  unfolding frame_def by (intro parents_ok_cong) auto

lemma tree_at_card: "tree_at h t \<Longrightarrow> finite (addrs t) \<and> card (addrs t) = sz t \<and> addrs t \<subseteq> {..<heap_limit}"
proof (induction t)
  case GLeaf
  then show ?case by simp
next
  case (GNode l a k r)
  then have "finite (addrs l)" "finite (addrs r)" "card (addrs l) = sz l" "card (addrs r) = sz r"
    and d: "a \<notin> addrs l" "a \<notin> addrs r" "addrs l \<inter> addrs r = {}"
    and s: "addrs l \<subseteq> {..<heap_limit}" "addrs r \<subseteq> {..<heap_limit}" "a < heap_limit"
    by auto
  then show ?case by (auto simp: card_Un_disjoint)
qed

lemma tree_at_sz: "tree_at h t \<Longrightarrow> sz t \<le> heap_limit"
proof -
  assume "tree_at h t"
  then have "card (addrs t) = sz t" "addrs t \<subseteq> {..<heap_limit}" by (auto dest: tree_at_card)
  then show ?thesis using card_mono [of "{..<heap_limit}" "addrs t"] by simp
qed

lemma tree_at_ht: "tree_at h t \<Longrightarrow> ht t < 2 ^ 64"
  using tree_at_sz [of h t] ht_le_sz [of t] by (simp add: heap_limit_def)

section \<open>Refinement of update\<close>

lemma unat_of_nat64: "a < 2 ^ 64 \<Longrightarrow> unat (of_nat a :: 64 word) = a"
  by (simp add: unat_of_nat)

lemma word_max_of_nat:
  "a < 2 ^ 64 \<Longrightarrow> b < 2 ^ 64 \<Longrightarrow> max (of_nat a :: 64 word) (of_nat b) = of_nat (max a b)"
  by (simp add: max_def word_le_nat_alt unat_of_nat64)

lemma of_nat_unat64: "unat (w :: 64 word) = n \<Longrightarrow> w = of_nat n"
  by auto

lemma tree_at_upd_other [simp]: "a \<notin> addrs t \<Longrightarrow> tree_at (h(a := v)) t = tree_at h t"
  by (rule tree_at_cong) auto

lemma cached_ok_upd_other [simp]: "a \<notin> addrs t \<Longrightarrow> cached_ok (h(a := v)) t = cached_ok h t"
  by (rule cached_ok_cong) auto

lemma parents_ok_upd_other [simp]:
  "a \<notin> addrs t \<Longrightarrow> parents_ok (h(a := v)) par t = parents_ok h par t"
  by (rule parents_ok_cong) auto

lemma kids_ok_upd_other [simp]: "a \<notin> addrs t \<Longrightarrow> kids_ok (h(a := v)) t = kids_ok h t"
  by (rule kids_ok_cong) auto

fun reparent :: "'a heap \<Rightarrow> ptr \<Rightarrow> 'a gtree \<Rightarrow> 'a heap" where
  "reparent h q GLeaf = h"
| "reparent h q (GNode l c k r) =
     (case h c of None \<Rightarrow> h | Some n \<Rightarrow> h(c \<mapsto> n\<lparr>parent := q\<rparr>))"

lemma height_of_root:
  "tree_at h t \<Longrightarrow> cached_ok h t \<Longrightarrow> height_of h (root_ptr t) = ok (of_nat (ht t))"
  by (cases t) (auto simp: height_of_def split: option.splits dest!: of_nat_unat64)

lemma cnt_of_root:
  "tree_at h t \<Longrightarrow> cached_ok h t \<Longrightarrow> cnt_of h (root_ptr t) = ok (of_nat (sz t))"
  by (cases t) (auto simp: cnt_of_def split: option.splits dest!: of_nat_unat64)

lemma set_child_parent_root:
  "tree_at h t \<Longrightarrow> set_child_parent h (root_ptr t) q = ok (reparent h q t)"
  by (cases t) (auto simp: set_child_parent_def assign_parent_def split: option.splits)

lemma reparent_fields:
  "map_option (\<lambda>n. (key n, left n, right n, height n, cnt n)) (reparent h q t x)
     = map_option (\<lambda>n. (key n, left n, right n, height n, cnt n)) (h x)"
  by (cases t) (auto split: option.splits)

lemma reparent_other: "root_ptr t \<noteq> Some x \<Longrightarrow> reparent h q t x = h x"
  by (cases t) (auto split: option.splits)

lemma reparent_root:
  "root_ptr t = Some c \<Longrightarrow> h c = Some n \<Longrightarrow> reparent h q t c = Some (n\<lparr>parent := q\<rparr>)"
  by (cases t) (auto split: option.splits)

lemma tree_at_reparent [simp]: "tree_at (reparent h q t') t = tree_at h t"
proof (rule tree_at_cong, rule ballI)
  fix x
  have "map_option (\<lambda>m. (key m, left m, right m)) (reparent h q t' x)
      = map_option ((\<lambda>(k, l, r, hh, c). (k, l, r)) \<circ> (\<lambda>n. (key n, left n, right n, height n, cnt n)))
          (reparent h q t' x)"
    by (simp add: comp_def)
  also have "\<dots> = map_option ((\<lambda>(k, l, r, hh, c). (k, l, r)) \<circ> (\<lambda>n. (key n, left n, right n, height n, cnt n))) (h x)"
    unfolding option.map_comp [symmetric] reparent_fields ..
  finally show "map_option (\<lambda>n. (key n, left n, right n)) (reparent h q t' x)
      = map_option (\<lambda>n. (key n, left n, right n)) (h x)"
    by (simp add: comp_def)
qed

lemma cached_ok_reparent [simp]: "cached_ok (reparent h q t') t = cached_ok h t"
proof (rule cached_ok_cong, rule ballI)
  fix x
  have "map_option (\<lambda>m. (height m, cnt m)) (reparent h q t' x)
      = map_option ((\<lambda>(k, l, r, hh, c). (hh, c)) \<circ> (\<lambda>n. (key n, left n, right n, height n, cnt n)))
          (reparent h q t' x)"
    by (simp add: comp_def)
  also have "\<dots> = map_option ((\<lambda>(k, l, r, hh, c). (hh, c)) \<circ> (\<lambda>n. (key n, left n, right n, height n, cnt n))) (h x)"
    unfolding option.map_comp [symmetric] reparent_fields ..
  finally show "map_option (\<lambda>n. (height n, cnt n)) (reparent h q t' x)
      = map_option (\<lambda>n. (height n, cnt n)) (h x)"
    by (simp add: comp_def)
qed

lemma parents_ok_reparent_other:
  "(\<And>c. root_ptr t' = Some c \<Longrightarrow> c \<notin> addrs t) \<Longrightarrow> parents_ok (reparent h q t') par t = parents_ok h par t"
  by (rule parents_ok_cong) (cases t'; auto split: option.splits)

lemma kids_ok_reparent_other:
  "(\<And>c. root_ptr t' = Some c \<Longrightarrow> c \<notin> addrs t) \<Longrightarrow> kids_ok (reparent h q t') t = kids_ok h t"
  by (rule kids_ok_cong) (cases t'; auto split: option.splits)

lemma root_notin_kids:
  "tree_at h t \<Longrightarrow> root_ptr t = Some c \<Longrightarrow> t = GNode l a k r \<Longrightarrow> c \<notin> addrs l \<and> c \<notin> addrs r"
  by auto

lemma parents_ok_reparent_self:
  "tree_at h t \<Longrightarrow> kids_ok h t \<Longrightarrow> parents_ok (reparent h q t) q t"
proof (cases t)
  case GLeaf
  then show ?thesis by simp
next
  case (GNode l c k r)
  assume t: "tree_at h t" and k: "kids_ok h t"
  from t GNode obtain n where n: "h c = Some n" by (auto split: option.splits)
  let ?h = "h(c \<mapsto> n\<lparr>parent := q\<rparr>)"
  from t GNode have d: "c \<notin> addrs l" "c \<notin> addrs r" by auto
  show ?thesis using GNode n k d by simp
qed

lemma root_ptr_in_addrs: "root_ptr t = Some c \<Longrightarrow> c \<in> addrs t"
  by (cases t) auto

lemma reparent_notin [simp]: "x \<notin> addrs t \<Longrightarrow> reparent h q t x = h x"
  by (cases t) (auto split: option.splits)

lemma update_eq:
  assumes n: "h a = Some n" "left n = root_ptr l" "right n = root_ptr r"
    and l: "tree_at h l" "cached_ok h l" and r: "tree_at h r" "cached_ok h r"
    and d: "a \<notin> addrs l" "a \<notin> addrs r"
  shows "update h (Some a) =
     ok (reparent (reparent (h(a \<mapsto> n\<lparr>height := of_nat (ht (GNode l a k r)),
              cnt := of_nat (sz (GNode l a k r)), parent := None\<rparr>)) (Some a) l) (Some a) r)"
proof -
  let ?n = "n\<lparr>height := of_nat (ht (GNode l a k r)), cnt := of_nat (sz (GNode l a k r)), parent := None\<rparr>"
  let ?h1 = "h(a \<mapsto> ?n)"
  have hl: "ht l < 2 ^ 64" "ht r < 2 ^ 64" using l r by (auto dest: tree_at_ht)
  have t1: "tree_at ?h1 l" "tree_at ?h1 r"
    using l r d by auto
  have w: "max (of_nat (ht l)) (of_nat (ht r)) + (1 :: 64 word) = of_nat (ht (GNode l a k r))"
    using hl by (simp add: word_max_of_nat)
  have c: "(of_nat (sz l) :: 64 word) + 1 + of_nat (sz r) = of_nat (sz (GNode l a k r))"
    by simp
  have t2: "tree_at (reparent ?h1 (Some a) l) r" using t1 by simp
  show ?thesis
    unfolding update_def option.case deref_Some [of h a n, OF n(1)] rbind_ok n(2,3)
      height_of_root [OF l] height_of_root [OF r] cnt_of_root [OF l] cnt_of_root [OF r] w c
      set_child_parent_root [OF t1(1)] set_child_parent_root [OF t2] ..
qed

lemma update_wft:
  assumes n: "h a = Some n" "left n = root_ptr l" "right n = root_ptr r" "key n = k"
    and l: "wft h l" and r: "wft h r"
    and d: "a \<notin> addrs l" "a \<notin> addrs r" "addrs l \<inter> addrs r = {}" "a < heap_limit"
    and h': "h' = reparent (reparent (h(a \<mapsto> n\<lparr>height := of_nat (ht (GNode l a k r)),
              cnt := of_nat (sz (GNode l a k r)), parent := None\<rparr>)) (Some a) l) (Some a) r"
  shows "wft h' (GNode l a k r)" "parents_ok h' None (GNode l a k r)"
    "frame (insert a (addrs l \<union> addrs r)) h h'"
proof -
  let ?t = "GNode l a k r"
  let ?n = "n\<lparr>height := of_nat (ht ?t), cnt := of_nat (sz ?t), parent := None\<rparr>"
  let ?h1 = "h(a \<mapsto> ?n)"
  let ?h2 = "reparent ?h1 (Some a) l"
  have tl: "tree_at h l" "cached_ok h l" "kids_ok h l" and tr: "tree_at h r" "cached_ok h r" "kids_ok h r"
    using l r by (auto simp: wft_def)
  have rl: "root_ptr l \<noteq> Some a" "root_ptr r \<noteq> Some a"
    using d by (auto dest: root_ptr_in_addrs)
  have rlr: "root_ptr l = Some c \<Longrightarrow> c \<notin> addrs r" "root_ptr r = Some c \<Longrightarrow> c \<notin> addrs l" for c
    using d by (auto dest: root_ptr_in_addrs)
  have a': "h' a = Some ?n"
    unfolding h' using rl by (simp add: reparent_other)
  have t1: "tree_at ?h1 l" "tree_at ?h1 r" "cached_ok ?h1 l" "cached_ok ?h1 r"
     "kids_ok ?h1 l" "kids_ok ?h1 r"
    using tl tr d by auto
  have tree: "tree_at h' ?t"
    using a' n d t1 unfolding h' by simp
  have sz: "sz ?t < 2 ^ 64" "ht ?t < 2 ^ 64"
    using tree_at_sz [OF tree] tree_at_ht [OF tree] by (simp_all add: heap_limit_def)
  have cached: "cached_ok h' ?t"
    using a' t1 sz unfolding h' by (simp add: unat_of_nat64 del: ht.simps sz.simps)
  have pl1: "parents_ok ?h2 (Some a) l"
    using t1 by (simp add: parents_ok_reparent_self)
  have pl: "parents_ok h' (Some a) l"
    unfolding h' using pl1 rlr by (simp add: parents_ok_reparent_other)
  have t2: "tree_at ?h2 r" "kids_ok ?h2 r"
    using t1 rlr by (simp_all add: kids_ok_reparent_other)
  have pr: "parents_ok h' (Some a) r"
    unfolding h' using t2 by (simp add: parents_ok_reparent_self)
  show "wft h' ?t" using tree cached pl pr by (simp add: wft_def)
  show "parents_ok h' None ?t" using a' pl pr by simp
  show "frame (insert a (addrs l \<union> addrs r)) h h'"
    unfolding frame_def h' by simp
qed

section \<open>Refinement of the rotations\<close>

lemma update_spec:
  assumes n: "h a = Some n" "left n = root_ptr l" "right n = root_ptr r" "key n = k"
    and l: "wft h l" and r: "wft h r"
    and d: "a \<notin> addrs l" "a \<notin> addrs r" "addrs l \<inter> addrs r = {}" "a < heap_limit"
  shows "\<exists>h'. update h (Some a) = ok h' \<and> wft h' (GNode l a k r) \<and>
           parents_ok h' None (GNode l a k r) \<and> frame (insert a (addrs l \<union> addrs r)) h h'"
proof -
  have tl: "tree_at h l" "cached_ok h l" and tr: "tree_at h r" "cached_ok h r"
    using l r by (auto simp: wft_def)
  show ?thesis
    using update_eq [OF n(1-3) tl tr d(1,2), of k] update_wft [OF n l r d refl]
    by blast
qed

lemma wft_upd_other [simp]: "a \<notin> addrs t \<Longrightarrow> wft (h(a := v)) t = wft h t"
  by (simp add: wft_def)

lemma frameD: "frame A h h' \<Longrightarrow> x \<notin> A \<Longrightarrow> h' x = h x"
  by (simp add: frame_def)

lemma frame_trans: "frame A h h1 \<Longrightarrow> frame B h1 h2 \<Longrightarrow> A \<subseteq> C \<Longrightarrow> B \<subseteq> C \<Longrightarrow> frame C h h2"
  unfolding frame_def by (metis subsetD)

lemma frame_upd: "a \<in> A \<Longrightarrow> frame A h (h(a := v))"
  by (simp add: frame_def)

lemma frame_refl [simp]: "frame A h h"
  by (simp add: frame_def)

lemma frame_mono: "frame A h h' \<Longrightarrow> A \<subseteq> B \<Longrightarrow> frame B h h'"
  by (auto simp: frame_def)

lemma parents_ok_kids: "parents_ok h p t \<Longrightarrow> kids_ok h t"
  by (cases t) auto

lemma wft_root: "wft h t \<Longrightarrow> root_ptr t = Some a \<Longrightarrow>
    \<exists>n l k r. t = GNode l a k r \<and> h a = Some n \<and> key n = k \<and> left n = root_ptr l \<and> right n = root_ptr r
       \<and> wft h l \<and> wft h r \<and> a \<notin> addrs l \<and> a \<notin> addrs r \<and> addrs l \<inter> addrs r = {} \<and> a < heap_limit"
  by (cases t) (auto simp: wft_def parents_ok_kids split: option.splits)

lemma wft_GNodeD:
  assumes "wft h (GNode l a k r)"
  shows "\<exists>n. h a = Some n \<and> key n = k \<and> left n = root_ptr l \<and> right n = root_ptr r"
    and "wft h l" "wft h r" "a \<notin> addrs l" "a \<notin> addrs r" "addrs l \<inter> addrs r = {}" "a < heap_limit"
  using assms by (auto simp: wft_def parents_ok_kids split: option.splits)

lemma rotateLeft_spec:
  assumes v: "h va = Some vn" "key vn = kv" "left vn = root_ptr A" "right vn = Some ua"
    and u: "h ua = Some un" "key un = ku" "left un = root_ptr B" "right un = root_ptr C"
    and w: "wft h A" "wft h B" "wft h C"
    and d: "va \<noteq> ua" "va \<notin> addrs A \<union> addrs B \<union> addrs C" "ua \<notin> addrs A \<union> addrs B \<union> addrs C"
      "addrs A \<inter> addrs B = {}" "addrs A \<inter> addrs C = {}" "addrs B \<inter> addrs C = {}"
      "va < heap_limit" "ua < heap_limit"
  shows "\<exists>h'. rotateLeft h (Some va) = ok (Some ua, h') \<and>
           wft h' (GNode (GNode A va kv B) ua ku C) \<and>
           parents_ok h' None (GNode (GNode A va kv B) ua ku C) \<and>
           frame (insert va (insert ua (addrs A \<union> addrs B \<union> addrs C))) h h'"
proof -
  let ?X = "insert va (insert ua (addrs A \<union> addrs B \<union> addrs C))"
  let ?vn = "vn\<lparr>right := root_ptr B\<rparr>"
  let ?un = "un\<lparr>left := Some va\<rparr>"
  let ?h1 = "h(va \<mapsto> ?vn)"
  let ?h2 = "?h1(ua \<mapsto> ?un)"
  have a1: "assign_right h (Some va) (left un) = ok ?h1"
    using v u by (simp add: assign_right_def)
  have a2: "assign_left ?h1 (Some ua) (Some va) = ok ?h2"
    using u d by (simp add: assign_left_def)
  have "\<exists>h3. update ?h2 (Some va) = ok h3 \<and> wft h3 (GNode A va kv B) \<and>
           parents_ok h3 None (GNode A va kv B) \<and> frame (insert va (addrs A \<union> addrs B)) ?h2 h3"
    by (rule update_spec [where n = ?vn]) (use v w d in auto)
  then obtain h3 where h3: "update ?h2 (Some va) = ok h3" "wft h3 (GNode A va kv B)"
      "frame (insert va (addrs A \<union> addrs B)) ?h2 h3"
    by blast
  have u3: "h3 ua = Some ?un"
    using frameD [OF h3(3), of ua] d by simp
  have c3: "wft h3 C"
    using wft_frame [OF h3(3), of C] w d by auto
  have "\<exists>h4. update h3 (Some ua) = ok h4 \<and> wft h4 (GNode (GNode A va kv B) ua ku C) \<and>
           parents_ok h4 None (GNode (GNode A va kv B) ua ku C) \<and>
           frame (insert ua (addrs (GNode A va kv B) \<union> addrs C)) h3 h4"
    by (rule update_spec [where n = ?un]) (use u3 u h3 c3 d in auto)
  then obtain h4 where h4: "update h3 (Some ua) = ok h4" "wft h4 (GNode (GNode A va kv B) ua ku C)"
      "parents_ok h4 None (GNode (GNode A va kv B) ua ku C)"
      "frame (insert ua (addrs (GNode A va kv B) \<union> addrs C)) h3 h4"
    by blast
  have f2: "frame ?X h ?h2" by (simp add: frame_def)
  have f: "frame ?X h h4"
    using f2 h3(3) h4(4) unfolding frame_def by auto
  have "rotateLeft h (Some va) = ok (Some ua, h4)"
    unfolding rotateLeft_def using v u a1 a2 h3(1) h4(1) by (simp add: Let_def)
  with h4 f show ?thesis by blast
qed

lemma rotateRight_spec:
  assumes u: "h ua = Some un" "key un = ku" "left un = Some va" "right un = root_ptr C"
    and v: "h va = Some vn" "key vn = kv" "left vn = root_ptr A" "right vn = root_ptr B"
    and w: "wft h A" "wft h B" "wft h C"
    and d: "va \<noteq> ua" "va \<notin> addrs A \<union> addrs B \<union> addrs C" "ua \<notin> addrs A \<union> addrs B \<union> addrs C"
      "addrs A \<inter> addrs B = {}" "addrs A \<inter> addrs C = {}" "addrs B \<inter> addrs C = {}"
      "va < heap_limit" "ua < heap_limit"
  shows "\<exists>h'. rotateRight h (Some ua) = ok (Some va, h') \<and>
           wft h' (GNode A va kv (GNode B ua ku C)) \<and>
           parents_ok h' None (GNode A va kv (GNode B ua ku C)) \<and>
           frame (insert va (insert ua (addrs A \<union> addrs B \<union> addrs C))) h h'"
proof -
  let ?X = "insert va (insert ua (addrs A \<union> addrs B \<union> addrs C))"
  let ?un = "un\<lparr>left := root_ptr B\<rparr>"
  let ?vn = "vn\<lparr>right := Some ua\<rparr>"
  let ?h1 = "h(ua \<mapsto> ?un)"
  let ?h2 = "?h1(va \<mapsto> ?vn)"
  have a1: "assign_left h (Some ua) (right vn) = ok ?h1"
    using v u by (simp add: assign_left_def)
  have a2: "assign_right ?h1 (Some va) (Some ua) = ok ?h2"
    using v d by (simp add: assign_right_def)
  have "\<exists>h3. update ?h2 (Some ua) = ok h3 \<and> wft h3 (GNode B ua ku C) \<and>
           parents_ok h3 None (GNode B ua ku C) \<and> frame (insert ua (addrs B \<union> addrs C)) ?h2 h3"
    by (rule update_spec [where n = ?un]) (use u w d in auto)
  then obtain h3 where h3: "update ?h2 (Some ua) = ok h3" "wft h3 (GNode B ua ku C)"
      "frame (insert ua (addrs B \<union> addrs C)) ?h2 h3"
    by blast
  have v3: "h3 va = Some ?vn"
    using frameD [OF h3(3), of va] d by simp
  have c3: "wft h3 A"
    using wft_frame [OF h3(3), of A] w d by auto
  have "\<exists>h4. update h3 (Some va) = ok h4 \<and> wft h4 (GNode A va kv (GNode B ua ku C)) \<and>
           parents_ok h4 None (GNode A va kv (GNode B ua ku C)) \<and>
           frame (insert va (addrs A \<union> addrs (GNode B ua ku C))) h3 h4"
    by (rule update_spec [where n = ?vn]) (use v3 v h3 c3 d in auto)
  then obtain h4 where h4: "update h3 (Some va) = ok h4" "wft h4 (GNode A va kv (GNode B ua ku C))"
      "parents_ok h4 None (GNode A va kv (GNode B ua ku C))"
      "frame (insert va (addrs A \<union> addrs (GNode B ua ku C))) h3 h4"
    by blast
  have f2: "frame ?X h ?h2" by (simp add: frame_def)
  have f: "frame ?X h h4"
    using f2 h3(3) h4(4) unfolding frame_def by auto
  have "rotateRight h (Some ua) = ok (Some va, h4)"
    unfolding rotateRight_def using v u a1 a2 h3(1) h4(1) by (simp add: Let_def)
  with h4 f show ?thesis by blast
qed

section \<open>Refinement of balance\<close>

lemma balance_word:
  assumes "\<bar>int hr - int hl\<bar> < 2 ^ 31"
  shows "sint (ucast (of_nat hr - of_nat hl :: 64 word) :: 32 word) = int hr - int hl"
proof -
  have d: "is_down (ucast :: 64 word \<Rightarrow> 32 word)"
    by (simp add: is_down)
  have "(of_nat hr - of_nat hl :: 64 word) = word_of_int (int hr - int hl)"
    by simp
  then have "(ucast (of_nat hr - of_nat hl :: 64 word) :: 32 word) = word_of_int (int hr - int hl)"
    by (simp only: ucast_down_wi [OF d])
  moreover have "signed_take_bit (31::nat) (int hr - int hl) = int hr - int hl"
    by (rule signed_take_bit_int_eq_self) (use assms in auto)
  ultimately show ?thesis
    by (simp only: sint_sbintrunc') simp
qed

lemma word32_eq_sint: "(b :: 32 word) = c \<longleftrightarrow> sint b = sint c"
  by (auto simp: signed_word_eqI)

lemma balance_tests:
  assumes "\<bar>int hr - int hl\<bar> \<le> 2"
  defines "b \<equiv> (ucast (of_nat hr - of_nat hl :: 64 word) :: 32 word)"
  shows "b = 2 \<longleftrightarrow> int hr - int hl = 2" "b = - 2 \<longleftrightarrow> int hr - int hl = - 2"
    "sint b < 0 \<longleftrightarrow> int hr - int hl < 0" "0 < sint b \<longleftrightarrow> 0 < int hr - int hl"
proof -
  have s: "sint b = int hr - int hl"
    unfolding b_def by (rule balance_word) (use assms(1) in simp)
  show "b = 2 \<longleftrightarrow> int hr - int hl = 2" "b = - 2 \<longleftrightarrow> int hr - int hl = - 2"
    "sint b < 0 \<longleftrightarrow> int hr - int hl < 0" "0 < sint b \<longleftrightarrow> 0 < int hr - int hl"
    by (simp_all add: word32_eq_sint s)
qed

lemma getBalance_wft:
  assumes "wft h (GNode l a k r)"
  shows "getBalance h (Some a) = ok (ucast (of_nat (ht r) - of_nat (ht l) :: 64 word))"
proof -
  from wft_GNodeD [OF assms] obtain n where n: "h a = Some n" "left n = root_ptr l" "right n = root_ptr r"
    and w: "wft h l" "wft h r" by blast
  from w have "height_of h (root_ptr l) = ok (of_nat (ht l))" "height_of h (root_ptr r) = ok (of_nat (ht r))"
    by (simp_all add: wft_def height_of_root)
  with n show ?thesis by (simp add: getBalance_def)
qed

lemma rotateLeft_spec2:
  assumes v: "h va = Some vn" "key vn = kv" "left vn = root_ptr A" "right vn = Some ua"
    and w: "wft h A" "wft h (GNode B ua ku C)"
    and d: "va \<notin> addrs A" "va \<notin> addrs (GNode B ua ku C)" "addrs A \<inter> addrs (GNode B ua ku C) = {}"
      "va < heap_limit"
  shows "\<exists>h'. rotateLeft h (Some va) = ok (Some ua, h') \<and>
           wft h' (GNode (GNode A va kv B) ua ku C) \<and>
           parents_ok h' None (GNode (GNode A va kv B) ua ku C) \<and>
           frame (insert va (addrs A \<union> addrs (GNode B ua ku C))) h h'"
proof -
  from wft_GNodeD [OF w(2)] obtain un where u: "h ua = Some un" "key un = ku" "left un = root_ptr B"
      "right un = root_ptr C" and w': "wft h B" "wft h C"
    and d': "ua \<notin> addrs B" "ua \<notin> addrs C" "addrs B \<inter> addrs C = {}" "ua < heap_limit"
    by blast
  have "\<exists>h'. rotateLeft h (Some va) = ok (Some ua, h') \<and>
           wft h' (GNode (GNode A va kv B) ua ku C) \<and>
           parents_ok h' None (GNode (GNode A va kv B) ua ku C) \<and>
           frame (insert va (insert ua (addrs A \<union> addrs B \<union> addrs C))) h h'"
    by (rule rotateLeft_spec [OF v u w(1) w']) (use d d' in auto)
  moreover have "insert va (insert ua (addrs A \<union> addrs B \<union> addrs C))
      = insert va (addrs A \<union> addrs (GNode B ua ku C))" by auto
  ultimately show ?thesis by simp
qed

lemma rotateRight_spec2:
  assumes u: "h ua = Some un" "key un = ku" "left un = Some va" "right un = root_ptr C"
    and w: "wft h (GNode A va kv B)" "wft h C"
    and d: "ua \<notin> addrs (GNode A va kv B)" "ua \<notin> addrs C" "addrs (GNode A va kv B) \<inter> addrs C = {}"
      "ua < heap_limit"
  shows "\<exists>h'. rotateRight h (Some ua) = ok (Some va, h') \<and>
           wft h' (GNode A va kv (GNode B ua ku C)) \<and>
           parents_ok h' None (GNode A va kv (GNode B ua ku C)) \<and>
           frame (insert ua (addrs (GNode A va kv B) \<union> addrs C)) h h'"
proof -
  from wft_GNodeD [OF w(1)] obtain vn where v: "h va = Some vn" "key vn = kv" "left vn = root_ptr A"
      "right vn = root_ptr B" and w': "wft h A" "wft h B"
    and d': "va \<notin> addrs A" "va \<notin> addrs B" "addrs A \<inter> addrs B = {}" "va < heap_limit"
    by blast
  have "\<exists>h'. rotateRight h (Some ua) = ok (Some va, h') \<and>
           wft h' (GNode A va kv (GNode B ua ku C)) \<and>
           parents_ok h' None (GNode A va kv (GNode B ua ku C)) \<and>
           frame (insert va (insert ua (addrs A \<union> addrs B \<union> addrs C))) h h'"
    by (rule rotateRight_spec [OF u v w' w(2)]) (use d d' in auto)
  moreover have "insert va (insert ua (addrs A \<union> addrs B \<union> addrs C))
      = insert ua (addrs (GNode A va kv B) \<union> addrs C)" by auto
  ultimately show ?thesis by simp
qed

lemma balance_spec:
  assumes n: "h a = Some n" "key n = k" "left n = root_ptr l" "right n = root_ptr r"
    and w: "wft h l" "wft h r"
    and av: "avl l" "avl r" "\<bar>int (ht l) - int (ht r)\<bar> \<le> 2"
    and d: "a \<notin> addrs l" "a \<notin> addrs r" "addrs l \<inter> addrs r = {}" "a < heap_limit"
  shows "\<exists>h'. balance h (Some a) = ok (root_ptr (g_balance (GNode l a k r)), h') \<and>
           wft h' (g_balance (GNode l a k r)) \<and>
           parents_ok h' None (g_balance (GNode l a k r)) \<and>
           frame (insert a (addrs l \<union> addrs r)) h h'"
proof -
  let ?t = "GNode l a k r"
  let ?X = "insert a (addrs l \<union> addrs r)"
  from update_spec [OF n(1,3,4,2) w d]
  obtain h1 where h1: "update h (Some a) = ok h1" "wft h1 ?t" "parents_ok h1 None ?t" "frame ?X h h1"
    by blast
  from wft_GNodeD [OF h1(2)] obtain n1 where n1: "h1 a = Some n1" "key n1 = k" "left n1 = root_ptr l"
      "right n1 = root_ptr r" and w1: "wft h1 l" "wft h1 r"
    by blast
  let ?b = "(ucast (of_nat (ht r) - of_nat (ht l) :: 64 word) :: 32 word)"
  have gb: "getBalance h1 (Some a) = ok ?b" by (rule getBalance_wft [OF h1(2)])
  have av': "\<bar>int (ht r) - int (ht l)\<bar> \<le> 2" using av by simp
  note tests = balance_tests [OF av']
  have start: "balance h (Some a) =
     (if int (ht r) - int (ht l) = 2 then
          rbind (getBalance h1 (root_ptr r)) (\<lambda>b.
          rbind (if sint b < 0
                 then rbind (rotateRight h1 (root_ptr r)) (\<lambda>(r, h2). assign_right h2 (Some a) r)
                 else ok h1) (\<lambda>h3.
          rotateLeft h3 (Some a)))
        else if int (ht r) - int (ht l) = - 2 then
          rbind (getBalance h1 (root_ptr l)) (\<lambda>b.
          rbind (if 0 < sint b
                 then rbind (rotateLeft h1 (root_ptr l)) (\<lambda>(l, h2). assign_left h2 (Some a) l)
                 else ok h1) (\<lambda>h3.
          rotateRight h3 (Some a)))
        else ok (Some a, h1))"
    unfolding balance_def using h1(1) gb n1 by (simp add: tests cong: if_cong)
  consider (R) "int (ht r) - int (ht l) = 2" | (L) "int (ht r) - int (ht l) = - 2"
    | (N) "\<bar>int (ht l) - int (ht r)\<bar> \<le> 1"
    using av(3) by linarith
  then show ?thesis
  proof cases
    case N
    then have "g_balance ?t = ?t" by (intro g_balance_id) simp
    moreover from N have "balance h (Some a) = ok (Some a, h1)" unfolding start by auto
    ultimately show ?thesis using h1 by simp
  next
    case R
    then obtain rl ra rk rr where r: "r = GNode rl ra rk rr" by (cases r) auto
    have avr: "\<bar>int (ht rr) - int (ht rl)\<bar> \<le> 2" using av(2) r by auto
    define br where "br = (ucast (of_nat (ht rr) - of_nat (ht rl) :: 64 word) :: 32 word)"
    have gbr: "getBalance h1 (root_ptr r) = ok br"
      using getBalance_wft [of h1 rl ra rk rr] w1 r by (simp add: br_def)
    have sb: "sint br < 0 \<longleftrightarrow> int (ht rr) - int (ht rl) < 0"
      unfolding br_def by (rule balance_tests(3) [OF avr])
    show ?thesis
    proof (cases "int (ht rr) - int (ht rl) < 0")
      case True
      then obtain A b kb B where rl: "rl = GNode A b kb B" by (cases rl) auto
      have gt: "g_balance ?t = GNode (GNode l a k A) b kb (GNode B ra rk rr)"
        using R True r rl by simp
      from wft_GNodeD [OF w1(2) [unfolded r]] obtain rn where rn: "h1 ra = Some rn" "key rn = rk"
          "left rn = root_ptr rl" "right rn = root_ptr rr" and wr: "wft h1 rl" "wft h1 rr"
        and dr: "ra \<notin> addrs rl" "ra \<notin> addrs rr" "addrs rl \<inter> addrs rr = {}" "ra < heap_limit"
        by blast
      have "\<exists>h2. rotateRight h1 (Some ra) = ok (Some b, h2) \<and>
           wft h2 (GNode A b kb (GNode B ra rk rr)) \<and>
           parents_ok h2 None (GNode A b kb (GNode B ra rk rr)) \<and>
           frame (insert ra (addrs (GNode A b kb B) \<union> addrs rr)) h1 h2"
        by (rule rotateRight_spec2 [where un = rn]) (use rn wr dr rl in auto)
      then obtain h2 where h2: "rotateRight h1 (Some ra) = ok (Some b, h2)"
          "wft h2 (GNode A b kb (GNode B ra rk rr))"
          "frame (insert ra (addrs (GNode A b kb B) \<union> addrs rr)) h1 h2"
        by blast
      have fr: "frame (addrs r) h1 h2" using h2(3) r rl by (auto simp: frame_def)
      have a2: "h2 a = Some n1" using frameD [OF fr, of a] d n1 by simp
      let ?n3 = "n1\<lparr>right := Some b\<rparr>"
      let ?h3 = "h2(a \<mapsto> ?n3)"
      have as: "assign_right h2 (Some a) (Some b) = ok ?h3"
        using a2 by (simp add: assign_right_def)
      have wl2: "wft h2 l" using wft_frame [OF fr, of l] w1 d by auto
      have "\<exists>h4. rotateLeft ?h3 (Some a) = ok (Some b, h4) \<and>
           wft h4 (GNode (GNode l a k A) b kb (GNode B ra rk rr)) \<and>
           parents_ok h4 None (GNode (GNode l a k A) b kb (GNode B ra rk rr)) \<and>
           frame (insert a (addrs l \<union> addrs (GNode A b kb (GNode B ra rk rr)))) ?h3 h4"
        by (rule rotateLeft_spec2 [where vn = ?n3]) (use n1 wl2 h2 d r rl in auto)
      then obtain h4 where h4: "rotateLeft ?h3 (Some a) = ok (Some b, h4)"
          "wft h4 (GNode (GNode l a k A) b kb (GNode B ra rk rr))"
          "parents_ok h4 None (GNode (GNode l a k A) b kb (GNode B ra rk rr))"
          "frame (insert a (addrs l \<union> addrs (GNode A b kb (GNode B ra rk rr)))) ?h3 h4"
        by blast
      have "frame ?X h h4"
        using h1(4) fr h4(4) r rl unfolding frame_def by auto
      moreover have "balance h (Some a) = ok (Some b, h4)"
        unfolding start using R True gbr sb r h2(1) as h4(1) by simp
      ultimately show ?thesis using h4 gt by simp
    next
      case False
      have gt: "g_balance ?t = GNode (GNode l a k rl) ra rk rr"
        using R False r by simp
      have "\<exists>h4. rotateLeft h1 (Some a) = ok (Some ra, h4) \<and>
           wft h4 (GNode (GNode l a k rl) ra rk rr) \<and>
           parents_ok h4 None (GNode (GNode l a k rl) ra rk rr) \<and>
           frame (insert a (addrs l \<union> addrs (GNode rl ra rk rr))) h1 h4"
        by (rule rotateLeft_spec2 [where vn = n1]) (use n1 w1 d r in auto)
      then obtain h4 where h4: "rotateLeft h1 (Some a) = ok (Some ra, h4)"
          "wft h4 (GNode (GNode l a k rl) ra rk rr)"
          "parents_ok h4 None (GNode (GNode l a k rl) ra rk rr)"
          "frame (insert a (addrs l \<union> addrs (GNode rl ra rk rr))) h1 h4"
        by blast
      have "frame ?X h h4"
        using h1(4) h4(4) r unfolding frame_def by auto
      moreover have "balance h (Some a) = ok (Some ra, h4)"
        unfolding start using R False gbr sb r h4(1) by simp
      ultimately show ?thesis using h4 gt by simp
    qed
  next
    case L
    then obtain ll la lk lr where l: "l = GNode ll la lk lr" by (cases l) auto
    have avl: "\<bar>int (ht lr) - int (ht ll)\<bar> \<le> 2" using av(1) l by auto
    define bl where "bl = (ucast (of_nat (ht lr) - of_nat (ht ll) :: 64 word) :: 32 word)"
    have gbl: "getBalance h1 (root_ptr l) = ok bl"
      using getBalance_wft [of h1 ll la lk lr] w1 l by (simp add: bl_def)
    have sb: "0 < sint bl \<longleftrightarrow> 0 < int (ht lr) - int (ht ll)"
      unfolding bl_def by (rule balance_tests(4) [OF avl])
    show ?thesis
    proof (cases "0 < int (ht lr) - int (ht ll)")
      case True
      then obtain A b kb B where lr: "lr = GNode A b kb B" by (cases lr) auto
      have gt: "g_balance ?t = GNode (GNode ll la lk A) b kb (GNode B a k r)"
        using L True l lr by simp
      from wft_GNodeD [OF w1(1) [unfolded l]] obtain ln where ln: "h1 la = Some ln" "key ln = lk"
          "left ln = root_ptr ll" "right ln = root_ptr lr" and wl: "wft h1 ll" "wft h1 lr"
        and dl: "la \<notin> addrs ll" "la \<notin> addrs lr" "addrs ll \<inter> addrs lr = {}" "la < heap_limit"
        by blast
      have "\<exists>h2. rotateLeft h1 (Some la) = ok (Some b, h2) \<and>
           wft h2 (GNode (GNode ll la lk A) b kb B) \<and>
           parents_ok h2 None (GNode (GNode ll la lk A) b kb B) \<and>
           frame (insert la (addrs ll \<union> addrs (GNode A b kb B))) h1 h2"
        by (rule rotateLeft_spec2 [where vn = ln]) (use ln wl dl lr in auto)
      then obtain h2 where h2: "rotateLeft h1 (Some la) = ok (Some b, h2)"
          "wft h2 (GNode (GNode ll la lk A) b kb B)"
          "frame (insert la (addrs ll \<union> addrs (GNode A b kb B))) h1 h2"
        by blast
      have fr: "frame (addrs l) h1 h2" using h2(3) l lr by (auto simp: frame_def)
      have a2: "h2 a = Some n1" using frameD [OF fr, of a] d n1 by simp
      let ?n3 = "n1\<lparr>left := Some b\<rparr>"
      let ?h3 = "h2(a \<mapsto> ?n3)"
      have as: "assign_left h2 (Some a) (Some b) = ok ?h3"
        using a2 by (simp add: assign_left_def)
      have wr2: "wft h2 r" using wft_frame [OF fr, of r] w1 d by auto
      have "\<exists>h4. rotateRight ?h3 (Some a) = ok (Some b, h4) \<and>
           wft h4 (GNode (GNode ll la lk A) b kb (GNode B a k r)) \<and>
           parents_ok h4 None (GNode (GNode ll la lk A) b kb (GNode B a k r)) \<and>
           frame (insert a (addrs (GNode (GNode ll la lk A) b kb B) \<union> addrs r)) ?h3 h4"
        by (rule rotateRight_spec2 [where un = ?n3]) (use n1 wr2 h2 d l lr in auto)
      then obtain h4 where h4: "rotateRight ?h3 (Some a) = ok (Some b, h4)"
          "wft h4 (GNode (GNode ll la lk A) b kb (GNode B a k r))"
          "parents_ok h4 None (GNode (GNode ll la lk A) b kb (GNode B a k r))"
          "frame (insert a (addrs (GNode (GNode ll la lk A) b kb B) \<union> addrs r)) ?h3 h4"
        by blast
      have "frame ?X h h4"
        using h1(4) fr h4(4) l lr unfolding frame_def by auto
      moreover have "balance h (Some a) = ok (Some b, h4)"
        unfolding start using L True gbl sb l h2(1) as h4(1) by simp
      ultimately show ?thesis using h4 gt by simp
    next
      case False
      have gt: "g_balance ?t = GNode ll la lk (GNode lr a k r)"
        using L False l by simp
      have "\<exists>h4. rotateRight h1 (Some a) = ok (Some la, h4) \<and>
           wft h4 (GNode ll la lk (GNode lr a k r)) \<and>
           parents_ok h4 None (GNode ll la lk (GNode lr a k r)) \<and>
           frame (insert a (addrs (GNode ll la lk lr) \<union> addrs r)) h1 h4"
        by (rule rotateRight_spec2 [where un = n1]) (use n1 w1 d l in auto)
      then obtain h4 where h4: "rotateRight h1 (Some a) = ok (Some la, h4)"
          "wft h4 (GNode ll la lk (GNode lr a k r))"
          "parents_ok h4 None (GNode ll la lk (GNode lr a k r))"
          "frame (insert a (addrs (GNode ll la lk lr) \<union> addrs r)) h1 h4"
        by blast
      have "frame ?X h h4"
        using h1(4) h4(4) l unfolding frame_def by auto
      moreover have "balance h (Some a) = ok (Some la, h4)"
        unfolding start using L False gbl sb l h4(1) by simp
      ultimately show ?thesis using h4 gt by simp
    qed
  qed
qed

section \<open>Insertion on ghost trees\<close>

subsection \<open>ghost insert\<close>

declare g_balance.simps [simp del]

lemma keys_g_balance [simp]: "keys (g_balance t) = keys t"
  by (simp add: keys_inorder)

lemma addrs_g_balance [simp]: "addrs (g_balance t) = addrs t"
  by (simp add: addrs_inorder)

lemma sz_g_balance [simp]: "sz (g_balance t) = sz t"
  by (simp add: sz_inorder)

lemma bst_g_balance [simp]: "bst (g_balance t) = bst t"
  by (simp add: bst_iff_sorted)

lemma keys_g_insert [simp]: "keys (g_insert x k t) = insert k (keys t)"
  by (induction t) auto

lemma addrs_g_insert_subset: "addrs (g_insert x k t) \<subseteq> insert x (addrs t)"
  by (induction t) auto

lemma bst_g_insert: "bst t \<Longrightarrow> bst (g_insert x k t)"
  by (induction t) auto

lemma g_insert_present: "bst t \<Longrightarrow> k \<in> keys t \<Longrightarrow> avl t \<Longrightarrow> g_insert x k t = t"
proof (induction t)
  case GLeaf
  then show ?case by simp
next
  case (GNode l a ka r)
  show ?case
  proof (cases "ka = k")
    case True
    then show ?thesis by simp
  next
    case False
    have b: "g_balance (GNode l a ka r) = GNode l a ka r"
      using GNode.prems(3) by (intro g_balance_id) auto
    show ?thesis
    proof (cases "ka < k")
      case True
      with GNode.prems False have "k \<in> keys r" by auto
      with GNode have "g_insert x k r = r" by simp
      with True False b show ?thesis by simp
    next
      case nl: False
      with GNode.prems False have "k \<in> keys l" by auto
      with GNode have "g_insert x k l = l" by simp
      with nl False b show ?thesis by simp
    qed
  qed
qed

lemma addrs_g_insert_absent: "k \<notin> keys t \<Longrightarrow> addrs (g_insert x k t) = insert x (addrs t)"
  by (induction t) auto

lemma inorder_g_insert_absent:
  "k \<notin> keys t \<Longrightarrow> sz (g_insert x k t) = sz t + 1"
  by (induction t) auto

lemma avl_g_insert:
  "avl t \<Longrightarrow> avl (g_insert x k t) \<and> (ht (g_insert x k t) = ht t \<or> ht (g_insert x k t) = ht t + 1)"
proof (induction t)
  case GLeaf
  then show ?case by simp
next
  case (GNode l a ka r)
  then have al: "avl l" and ar: "avl r" and d: "\<bar>int (ht l) - int (ht r)\<bar> \<le> 1" by auto
  show ?case
  proof (cases "ka = k")
    case True
    with GNode.prems show ?thesis by simp
  next
    case False
    show ?thesis
    proof (cases "ka < k")
      case True
      let ?r = "g_insert x k r"
      from GNode.IH(2) [OF ar] have r': "avl ?r" "ht ?r = ht r \<or> ht ?r = ht r + 1" by auto
      then have "\<bar>int (ht l) - int (ht ?r)\<bar> \<le> 2" using d by auto
      from avl_g_balance [OF al r'(1) this, of a ka] r'(2) d
      show ?thesis using True False by (auto simp: max_def split: if_splits)
    next
      case nl: False
      let ?l = "g_insert x k l"
      from GNode.IH(1) [OF al] have l': "avl ?l" "ht ?l = ht l \<or> ht ?l = ht l + 1" by auto
      then have "\<bar>int (ht ?l) - int (ht r)\<bar> \<le> 2" using d by auto
      from avl_g_balance [OF l'(1) ar this, of a ka] l'(2) d
      show ?thesis using nl False by (auto simp: max_def split: if_splits)
    qed
  qed
qed

subsection \<open>allocation\<close>

lemma first_free_Some: "first_free h a = Some x \<Longrightarrow> h x = None \<and> x < heap_limit \<and> a \<le> x"
proof (induction h a rule: first_free.induct)
  case (1 h a)
  then show ?case
    by (subst (asm) (2) first_free.simps) (auto split: if_splits)
qed

lemma first_free_None: "first_free h a = None \<Longrightarrow> a \<le> x \<Longrightarrow> x < heap_limit \<Longrightarrow> h x \<noteq> None"
proof (induction h a rule: first_free.induct)
  case (1 h a)
  from "1.prems"(1) have *: "heap_limit \<le> a \<or> (h a \<noteq> None \<and> first_free h (Suc a) = None)"
    by (subst (asm) first_free.simps) (auto split: if_splits)
  show ?case
  proof (cases "x = a")
    case True
    with * "1.prems" show ?thesis by auto
  next
    case False
    with "1.prems" have "Suc a \<le> x" by simp
    with * "1.prems" "1.IH" show ?thesis by auto
  qed
qed

lemma tree_at_dom: "tree_at h t \<Longrightarrow> a \<in> addrs t \<Longrightarrow> h a \<noteq> None"
  by (induction t) (auto split: option.splits)

lemma wft_dom: "wft h t \<Longrightarrow> a \<in> addrs t \<Longrightarrow> h a \<noteq> None"
  using tree_at_dom [of h t a] by (simp add: wft_def)

lemma wft_GLeaf [simp]: "wft h GLeaf"
  by (simp add: wft_def)

lemma wft_fresh:
  assumes "h x = None" "x < heap_limit"
  shows "wft (h(x \<mapsto> \<lparr>key = k, height = 1, cnt = 1, left = None, right = None, parent = par\<rparr>))
           (GNode GLeaf x k GLeaf)"
  using assms by (simp add: wft_def)

section \<open>Refinement of AVLInsert\<close>

lemma addrs_g_insert_superset: "addrs t \<subseteq> addrs (g_insert x k t)"
  by (induction t) auto

lemma g_insert_new_addrs:
  assumes "bst t" "avl t" "k \<in> keys t \<or> first_free h 0 = Some x"
  shows "\<forall>y \<in> addrs (g_insert x k t). y \<in> addrs t \<or> h y = None"
proof (cases "k \<in> keys t")
  case True
  with assms show ?thesis by (simp add: g_insert_present)
next
  case False
  with assms have "h x = None" by (auto dest: first_free_Some)
  with addrs_g_insert_subset [of x k t] show ?thesis by auto
qed

lemma AVLInsert_spec:
  assumes "wft h t" "avl t" "bst t" "k \<in> keys t \<or> first_free h 0 = Some x"
  shows "\<exists>h'. AVLInsert h (root_ptr t) k par = ok (root_ptr (g_insert x k t), h') \<and>
           wft h' (g_insert x k t) \<and> frame (addrs (g_insert x k t)) h h' \<and>
           (par = None \<longrightarrow> parents_ok h None t \<longrightarrow> parents_ok h' None (g_insert x k t))"
  using assms
proof (induction t arbitrary: par)
  case GLeaf
  then have ff: "first_free h 0 = Some x" by simp
  then have x: "h x = None" "x < heap_limit" by (auto dest: first_free_Some)
  let ?n = "\<lparr>key = k, height = 1, cnt = 1, left = None, right = None, parent = par\<rparr>"
  let ?h1 = "h(x \<mapsto> ?n)"
  have "AVLInsert h None k par = ok (Some x, ?h1)"
    by (subst AVLInsert.simps) (simp add: new_TreeNode_def alloc_def ff)
  moreover have "wft ?h1 (GNode GLeaf x k GLeaf)" using x by (rule wft_fresh)
  moreover have "frame {x} h ?h1" by (simp add: frame_def)
  ultimately show ?case by simp
next
  case (GNode l a ka r)
  let ?t = "GNode l a ka r"
  from wft_GNodeD [OF GNode.prems(1)] obtain n where n: "h a = Some n" "key n = ka"
      "left n = root_ptr l" "right n = root_ptr r" and w: "wft h l" "wft h r"
    and d: "a \<notin> addrs l" "a \<notin> addrs r" "addrs l \<inter> addrs r = {}" "a < heap_limit"
    by blast
  from GNode.prems have al: "avl l" and ar: "avl r" and dh: "\<bar>int (ht l) - int (ht r)\<bar> \<le> 1"
    and bl: "bst l" and br: "bst r" by auto
  show ?case
  proof (cases "ka = k")
    case True
    have "AVLInsert h (Some a) k par = ok (Some a, h)"
      by (subst AVLInsert.simps) (simp add: n True)
    with True GNode.prems(1) show ?thesis by simp
  next
    case False
    show ?thesis
    proof (cases "ka < k")
      case True
      let ?r = "g_insert x k r"
      have pre: "k \<in> keys r \<or> first_free h 0 = Some x"
        using GNode.prems(3,4) True False by auto
      from GNode.IH(2) [OF w(2) ar br pre, of "Some a"]
      obtain h2 where h2: "AVLInsert h (root_ptr r) k (Some a) = ok (root_ptr ?r, h2)"
          "wft h2 ?r" "frame (addrs ?r) h h2" by blast
      note new = g_insert_new_addrs [OF br ar pre]
      have "a \<notin> addrs ?r" using new d n by auto
      moreover have "addrs l \<inter> addrs ?r = {}"
        using new d wft_dom [OF w(1)] by blast
      ultimately have d': "a \<notin> addrs ?r" "addrs l \<inter> addrs ?r = {}" by auto
      have a2: "h2 a = Some n" using frameD [OF h2(3) d'(1)] n by simp
      let ?n3 = "n\<lparr>right := root_ptr ?r\<rparr>"
      let ?h3 = "h2(a \<mapsto> ?n3)"
      have as: "assign_right h2 (Some a) (root_ptr ?r) = ok ?h3"
        using a2 by (simp add: assign_right_def)
      have wl3: "wft ?h3 l" using wft_frame [OF h2(3), of l] w(1) d d' by auto
      have wr3: "wft ?h3 ?r" using h2(2) d' by simp
      from avl_g_insert [OF ar, of x k] have ar': "avl ?r" and hr: "ht ?r = ht r \<or> ht ?r = ht r + 1"
        by auto
      have dh': "\<bar>int (ht l) - int (ht ?r)\<bar> \<le> 2" using dh hr by auto
      have "\<exists>h4. balance ?h3 (Some a) = ok (root_ptr (g_balance (GNode l a ka ?r)), h4) \<and>
           wft h4 (g_balance (GNode l a ka ?r)) \<and>
           parents_ok h4 None (g_balance (GNode l a ka ?r)) \<and>
           frame (insert a (addrs l \<union> addrs ?r)) ?h3 h4"
        by (rule balance_spec [where n = ?n3]) (use n wl3 wr3 al ar' dh' d d' in auto)
      then obtain h4 where h4: "balance ?h3 (Some a) = ok (root_ptr (g_balance (GNode l a ka ?r)), h4)"
          "wft h4 (g_balance (GNode l a ka ?r))"
          "parents_ok h4 None (g_balance (GNode l a ka ?r))"
          "frame (insert a (addrs l \<union> addrs ?r)) ?h3 h4" by blast
      have gi: "g_insert x k ?t = g_balance (GNode l a ka ?r)"
        using True False by simp
      have "AVLInsert h (Some a) k par = ok (root_ptr (g_balance (GNode l a ka ?r)), h4)"
        by (subst AVLInsert.simps) (use n True False h2(1) as h4(1) in simp)
      moreover have "frame (insert a (addrs l \<union> addrs ?r)) h h4"
        using h2(3) h4(4) unfolding frame_def by auto
      ultimately show ?thesis using h4 unfolding gi by simp
    next
      case nl: False
      let ?l = "g_insert x k l"
      have pre: "k \<in> keys l \<or> first_free h 0 = Some x"
        using GNode.prems(3,4) nl False by auto
      from GNode.IH(1) [OF w(1) al bl pre, of "Some a"]
      obtain h2 where h2: "AVLInsert h (root_ptr l) k (Some a) = ok (root_ptr ?l, h2)"
          "wft h2 ?l" "frame (addrs ?l) h h2" by blast
      note new = g_insert_new_addrs [OF bl al pre]
      have "a \<notin> addrs ?l" using new d n by auto
      moreover have "addrs ?l \<inter> addrs r = {}"
        using new d wft_dom [OF w(2)] by blast
      ultimately have d': "a \<notin> addrs ?l" "addrs ?l \<inter> addrs r = {}" by auto
      have a2: "h2 a = Some n" using frameD [OF h2(3) d'(1)] n by simp
      let ?n3 = "n\<lparr>left := root_ptr ?l\<rparr>"
      let ?h3 = "h2(a \<mapsto> ?n3)"
      have as: "assign_left h2 (Some a) (root_ptr ?l) = ok ?h3"
        using a2 by (simp add: assign_left_def)
      have wr3: "wft ?h3 r" using wft_frame [OF h2(3), of r] w(2) d d' by auto
      have wl3: "wft ?h3 ?l" using h2(2) d' by simp
      from avl_g_insert [OF al, of x k] have al': "avl ?l" and hl: "ht ?l = ht l \<or> ht ?l = ht l + 1"
        by auto
      have dh': "\<bar>int (ht ?l) - int (ht r)\<bar> \<le> 2" using dh hl by auto
      have "\<exists>h4. balance ?h3 (Some a) = ok (root_ptr (g_balance (GNode ?l a ka r)), h4) \<and>
           wft h4 (g_balance (GNode ?l a ka r)) \<and>
           parents_ok h4 None (g_balance (GNode ?l a ka r)) \<and>
           frame (insert a (addrs ?l \<union> addrs r)) ?h3 h4"
        by (rule balance_spec [where n = ?n3]) (use n wl3 wr3 al' ar dh' d d' in auto)
      then obtain h4 where h4: "balance ?h3 (Some a) = ok (root_ptr (g_balance (GNode ?l a ka r)), h4)"
          "wft h4 (g_balance (GNode ?l a ka r))"
          "parents_ok h4 None (g_balance (GNode ?l a ka r))"
          "frame (insert a (addrs ?l \<union> addrs r)) ?h3 h4" by blast
      have gi: "g_insert x k ?t = g_balance (GNode ?l a ka r)"
        using nl False by simp
      have nlt: "\<not> key n < k" using nl n by simp
      have "AVLInsert h (Some a) k par = ok (root_ptr (g_balance (GNode ?l a ka r)), h4)"
        by (subst AVLInsert.simps) (use n nlt False h2(1) as h4(1) in simp)
      moreover have "frame (insert a (addrs ?l \<union> addrs r)) h h4"
        using h2(3) h4(4) unfolding frame_def by auto
      ultimately show ?thesis using h4 unfolding gi by simp
    qed
  qed
qed

lemma AVLInsert_BadAlloc:
  assumes "wft h t" "k \<notin> keys t" "first_free h 0 = None"
  shows "AVLInsert h (root_ptr t) k par = raise BadAlloc"
  using assms
proof (induction t arbitrary: par)
  case GLeaf
  then show ?case by (subst AVLInsert.simps) (simp add: new_TreeNode_def alloc_def)
next
  case (GNode l a ka r)
  from wft_GNodeD [OF GNode.prems(1)] obtain n where n: "h a = Some n" "key n = ka"
      "left n = root_ptr l" "right n = root_ptr r" and w: "wft h l" "wft h r"
    by blast
  from GNode.prems have k: "ka \<noteq> k" "k \<notin> keys l" "k \<notin> keys r" by auto
  from GNode.IH(1) [OF w(1) k(2) GNode.prems(3)] GNode.IH(2) [OF w(2) k(3) GNode.prems(3)]
  show ?case
    by (subst AVLInsert.simps) (use n k in simp)
qed

section \<open>Erasure on ghost trees\<close>

subsection \<open>ghost erase\<close>

lemma g_findMin_inorder:
  "t \<noteq> GLeaf \<Longrightarrow> \<exists>m km mr. g_findMin t = GNode GLeaf m km mr \<and>
      inorder t = (m, km) # inorder (g_eraseMin t)"
proof (induction t)
  case GLeaf
  then show ?case by simp
next
  case (GNode l a k r)
  show ?case
  proof (cases "l = GLeaf")
    case True
    then show ?thesis by simp
  next
    case False
    with GNode.IH(1) show ?thesis by auto
  qed
qed

lemma g_findMin_GLeaf [simp]: "g_findMin t = GLeaf \<longleftrightarrow> t = GLeaf"
  using g_findMin_inorder [of t] by (cases t) auto

lemma avl_g_eraseMin:
  "avl t \<Longrightarrow> avl (g_eraseMin t) \<and> (ht (g_eraseMin t) = ht t \<or> ht (g_eraseMin t) + 1 = ht t)"
proof (induction t)
  case GLeaf
  then show ?case by simp
next
  case (GNode l a k r)
  then have al: "avl l" and ar: "avl r" and d: "\<bar>int (ht l) - int (ht r)\<bar> \<le> 1" by auto
  show ?case
  proof (cases "l = GLeaf")
    case True
    with ar d show ?thesis by (auto simp: max_def)
  next
    case False
    let ?l = "g_eraseMin l"
    from GNode.IH(1) [OF al] have l': "avl ?l" "ht ?l = ht l \<or> ht ?l + 1 = ht l" by auto
    then have "\<bar>int (ht ?l) - int (ht r)\<bar> \<le> 2" using d by auto
    from avl_g_balance [OF l'(1) ar this, of a k] l'(2) d
    show ?thesis using False by (auto simp: max_def split: if_splits)
  qed
qed

lemma avl_g_balance_self: "avl t \<Longrightarrow> g_balance t = t"
  by (cases t) (auto intro: g_balance_id)

lemma inorder_g_erase:
  "bst t \<Longrightarrow> inorder (g_erase k t) = filter (\<lambda>p. snd p \<noteq> k) (inorder t)"
proof (induction t)
  case GLeaf
  then show ?case by (simp add: g_balance.simps)
next
  case (GNode l a ka r)
  then have bl: "bst l" and br: "bst r" and kl: "\<forall>x \<in> keys l. x < ka" and kr: "\<forall>x \<in> keys r. ka < x"
    by auto
  have fl: "ka \<le> k \<Longrightarrow> filter (\<lambda>p. snd p \<noteq> k) (inorder l) = inorder l"
    using kl by (auto simp: keys_inorder filter_id_conv)
  have fr: "k \<le> ka \<Longrightarrow> filter (\<lambda>p. snd p \<noteq> k) (inorder r) = inorder r"
    using kr by (auto simp: keys_inorder filter_id_conv)
  show ?case
  proof (cases "ka = k")
    case True
    show ?thesis
    proof (cases "r = GLeaf")
      case rl: True
      with True fl show ?thesis by simp
    next
      case False
      from g_findMin_inorder [OF False] obtain m km mr where
        "g_findMin r = GNode GLeaf m km mr" "inorder r = (m, km) # inorder (g_eraseMin r)"
        by blast
      with True fl fr show ?thesis by simp
    qed
  next
    case False
    show ?thesis
    proof (cases "ka < k")
      case True
      with False GNode.IH(2) [OF br] fl show ?thesis by simp
    next
      case nl: False
      with False GNode.IH(1) [OF bl] fr show ?thesis by simp
    qed
  qed
qed

lemma keys_g_erase: "bst t \<Longrightarrow> keys (g_erase k t) = keys t - {k}"
  by (auto simp: keys_inorder inorder_g_erase)

lemma bst_g_erase: "bst t \<Longrightarrow> bst (g_erase k t)"
  by (simp add: bst_iff_sorted inorder_g_erase sorted_wrt_map sorted_wrt_filter)

lemma addrs_g_erase_subset: "bst t \<Longrightarrow> addrs (g_erase k t) \<subseteq> addrs t"
  by (auto simp: addrs_inorder inorder_g_erase)

lemma avl_g_erase:
  "avl t \<Longrightarrow> avl (g_erase k t) \<and> (ht (g_erase k t) = ht t \<or> ht (g_erase k t) + 1 = ht t)"
proof (induction t)
  case GLeaf
  then show ?case by (simp add: g_balance.simps)
next
  case (GNode l a ka r)
  then have al: "avl l" and ar: "avl r" and d: "\<bar>int (ht l) - int (ht r)\<bar> \<le> 1" by auto
  show ?case
  proof (cases "ka = k")
    case True
    show ?thesis
    proof (cases "r = GLeaf")
      case rl: True
      with True al d show ?thesis by (auto simp: avl_g_balance_self max_def)
    next
      case False
      from g_findMin_inorder [OF False] obtain m km mr where
        m: "g_findMin r = GNode GLeaf m km mr" by blast
      let ?r = "g_eraseMin r"
      from avl_g_eraseMin [OF ar] have r': "avl ?r" "ht ?r = ht r \<or> ht ?r + 1 = ht r" by auto
      then have "\<bar>int (ht l) - int (ht ?r)\<bar> \<le> 2" using d by auto
      from avl_g_balance [OF al r'(1) this, of m km] r'(2) d
      show ?thesis using True m by (auto simp: max_def split: if_splits)
    qed
  next
    case False
    show ?thesis
    proof (cases "ka < k")
      case True
      let ?r = "g_erase k r"
      from GNode.IH(2) [OF ar] have r': "avl ?r" "ht ?r = ht r \<or> ht ?r + 1 = ht r" by auto
      then have "\<bar>int (ht l) - int (ht ?r)\<bar> \<le> 2" using d by auto
      from avl_g_balance [OF al r'(1) this, of a ka] r'(2) d
      show ?thesis using True False by (auto simp: max_def split: if_splits)
    next
      case nl: False
      let ?l = "g_erase k l"
      from GNode.IH(1) [OF al] have l': "avl ?l" "ht ?l = ht l \<or> ht ?l + 1 = ht l" by auto
      then have "\<bar>int (ht ?l) - int (ht r)\<bar> \<le> 2" using d by auto
      from avl_g_balance [OF l'(1) ar this, of a ka] l'(2) d
      show ?thesis using nl False by (auto simp: max_def split: if_splits)
    qed
  qed
qed

lemma tree_at_distinct: "tree_at h t \<Longrightarrow> distinct (map fst (inorder t))"
  by (induction t) (auto simp: addrs_inorder)

section \<open>Refinement of findMin, eraseMin and AVLErase\<close>

lemma findMin_spec: "tree_at h t \<Longrightarrow> findMin h (root_ptr t) = ok (root_ptr (g_findMin t), h)"
proof (induction t)
  case GLeaf
  then show ?case by (subst findMin.simps) simp
next
  case (GNode l a k r)
  then obtain n where n: "h a = Some n" "left n = root_ptr l" by (auto split: option.splits)
  show ?case
  proof (cases l)
    case GLeaf
    with n show ?thesis by (subst findMin.simps) simp
  next
    case (GNode ll la lk lr)
    with n GNode.IH(1) GNode.prems show ?thesis by (subst findMin.simps) simp
  qed
qed

lemma addrs_g_eraseMin: "addrs (g_eraseMin t) \<subseteq> addrs t"
  by (induction t) auto

lemma eraseMin_spec:
  assumes "wft h t" "avl t" "t \<noteq> GLeaf"
  shows "\<exists>h'. eraseMin h (root_ptr t) = ok (root_ptr (g_eraseMin t), h') \<and>
           wft h' (g_eraseMin t) \<and> frame (addrs (g_eraseMin t)) h h'"
  using assms
proof (induction t)
  case GLeaf
  then show ?case by simp
next
  case (GNode l a k r)
  from wft_GNodeD [OF GNode.prems(1)] obtain n where n: "h a = Some n" "key n = k"
      "left n = root_ptr l" "right n = root_ptr r" and w: "wft h l" "wft h r"
    and d: "a \<notin> addrs l" "a \<notin> addrs r" "addrs l \<inter> addrs r = {}" "a < heap_limit"
    by blast
  from GNode.prems have al: "avl l" and ar: "avl r" and dh: "\<bar>int (ht l) - int (ht r)\<bar> \<le> 1"
    by auto
  show ?case
  proof (cases "l = GLeaf")
    case True
    have "eraseMin h (Some a) = ok (root_ptr r, h)"
      by (subst eraseMin.simps) (use n True in simp)
    with True w show ?thesis by simp
  next
    case False
    then obtain la where la: "root_ptr l = Some la" by (cases l) auto
    let ?l = "g_eraseMin l"
    from GNode.IH(1) [OF w(1) al False]
    obtain h1 where h1: "eraseMin h (root_ptr l) = ok (root_ptr ?l, h1)" "wft h1 ?l"
        "frame (addrs ?l) h h1" by blast
    have sub: "addrs ?l \<subseteq> addrs l" by (rule addrs_g_eraseMin)
    have d': "a \<notin> addrs ?l" "addrs ?l \<inter> addrs r = {}" using sub d by auto
    have a1: "h1 a = Some n" using frameD [OF h1(3) d'(1)] n by simp
    let ?n2 = "n\<lparr>left := root_ptr ?l\<rparr>"
    let ?h2 = "h1(a \<mapsto> ?n2)"
    have as: "assign_left h1 (Some a) (root_ptr ?l) = ok ?h2"
      using a1 by (simp add: assign_left_def)
    have wr2: "wft ?h2 r" using wft_frame [OF h1(3), of r] w(2) d d' by auto
    have wl2: "wft ?h2 ?l" using h1(2) d' by simp
    from avl_g_eraseMin [OF al] have al': "avl ?l" and hl: "ht ?l = ht l \<or> ht ?l + 1 = ht l"
      by auto
    have dh': "\<bar>int (ht ?l) - int (ht r)\<bar> \<le> 2" using dh hl by auto
    have "\<exists>h3. balance ?h2 (Some a) = ok (root_ptr (g_balance (GNode ?l a k r)), h3) \<and>
         wft h3 (g_balance (GNode ?l a k r)) \<and>
         parents_ok h3 None (g_balance (GNode ?l a k r)) \<and>
         frame (insert a (addrs ?l \<union> addrs r)) ?h2 h3"
      by (rule balance_spec [where n = ?n2]) (use n wl2 wr2 al' ar dh' d d' in auto)
    then obtain h3 where h3: "balance ?h2 (Some a) = ok (root_ptr (g_balance (GNode ?l a k r)), h3)"
        "wft h3 (g_balance (GNode ?l a k r))"
        "frame (insert a (addrs ?l \<union> addrs r)) ?h2 h3" by blast
    have "eraseMin h (Some a) = ok (root_ptr (g_balance (GNode ?l a k r)), h3)"
      by (subst eraseMin.simps) (use n la h1(1) as h3(1) in simp)
    moreover have "frame (insert a (addrs ?l \<union> addrs r)) h h3"
      using h1(3) h3(3) unfolding frame_def by auto
    ultimately show ?thesis using h3 False by simp
  qed
qed

lemma g_eraseMin_addrs:
  assumes "tree_at h t" "g_findMin t = GNode GLeaf m km mr"
  shows "m \<in> addrs t" "m \<notin> addrs (g_eraseMin t)" "addrs (g_eraseMin t) \<subseteq> addrs t"
proof -
  from assms(2) have "t \<noteq> GLeaf" by auto
  from g_findMin_inorder [OF this] assms(2) have i: "inorder t = (m, km) # inorder (g_eraseMin t)"
    by simp
  from tree_at_distinct [OF assms(1)] i show "m \<notin> addrs (g_eraseMin t)"
    by (simp add: addrs_inorder)
  from i show "m \<in> addrs t" "addrs (g_eraseMin t) \<subseteq> addrs t"
    by (auto simp: addrs_inorder)
qed

lemma g_findMin_node:
  "tree_at h t \<Longrightarrow> g_findMin t = GNode GLeaf m km mr \<Longrightarrow> \<exists>n. h m = Some n \<and> key n = km"
proof (induction t)
  case GLeaf
  then show ?case by simp
next
  case (GNode l a k r)
  then show ?case by (cases "l = GLeaf") (auto split: option.splits)
qed

lemma AVLErase_spec:
  assumes "wft h t" "avl t" "bst t"
  shows "\<exists>h'. AVLErase h (root_ptr t) k = ok (root_ptr (g_erase k t), h') \<and>
           wft h' (g_erase k t) \<and> parents_ok h' None (g_erase k t) \<and> frame (addrs t) h h' \<and>
           (\<forall>x \<in> addrs t - addrs (g_erase k t). h' x = None)"
  using assms
proof (induction t)
  case GLeaf
  have "AVLErase h None k = ok (None, h)" by (subst AVLErase.simps) simp
  then show ?case by simp
next
  case (GNode l a ka r)
  let ?t = "GNode l a ka r"
  from wft_GNodeD [OF GNode.prems(1)] obtain n where n: "h a = Some n" "key n = ka"
      "left n = root_ptr l" "right n = root_ptr r" and w: "wft h l" "wft h r"
    and d: "a \<notin> addrs l" "a \<notin> addrs r" "addrs l \<inter> addrs r = {}" "a < heap_limit"
    by blast
  from GNode.prems have al: "avl l" and ar: "avl r" and dh: "\<bar>int (ht l) - int (ht r)\<bar> \<le> 1"
    and bl: "bst l" and br: "bst r" by auto
  show ?case
  proof (cases "ka = k")
    case True
    let ?h1 = "h(a := None)"
    have del: "delete_node h (Some a) = ok ?h1" using n by (simp add: delete_node_def)
    have w1: "wft ?h1 l" "wft ?h1 r" using w d by simp_all
    show ?thesis
    proof (cases "r = GLeaf")
      case rl: True
      have ge: "g_erase k ?t = l" using True rl al by (simp add: avl_g_balance_self)
      show ?thesis
      proof (cases l)
        case GLeaf
        have "AVLErase h (Some a) k = ok (None, ?h1)"
          by (subst AVLErase.simps) (use n True rl GLeaf del in \<open>simp add: balance_def\<close>)
        then show ?thesis unfolding ge using GLeaf rl by (simp add: frame_def)
      next
        case (GNode ll la lk lr)
        from wft_GNodeD [OF w1(1) [unfolded GNode]] obtain ln where ln: "?h1 la = Some ln" "key ln = lk"
            "left ln = root_ptr ll" "right ln = root_ptr lr" and wl: "wft ?h1 ll" "wft ?h1 lr"
          and dl: "la \<notin> addrs ll" "la \<notin> addrs lr" "addrs ll \<inter> addrs lr = {}" "la < heap_limit"
          by blast
        have "\<exists>h2. balance ?h1 (Some la) = ok (root_ptr (g_balance (GNode ll la lk lr)), h2) \<and>
           wft h2 (g_balance (GNode ll la lk lr)) \<and>
           parents_ok h2 None (g_balance (GNode ll la lk lr)) \<and>
           frame (insert la (addrs ll \<union> addrs lr)) ?h1 h2"
          by (rule balance_spec [where n = ln]) (use ln wl dl al GNode in auto)
        then obtain h2 where h2: "balance ?h1 (Some la) = ok (root_ptr l, h2)"
            "wft h2 l" "parents_ok h2 None l" "frame (addrs l) ?h1 h2"
          using al GNode by (auto simp: avl_g_balance_self)
        have "AVLErase h (Some a) k = ok (root_ptr l, h2)"
          by (subst AVLErase.simps) (use n True rl GNode del h2(1) in simp)
        moreover have "frame (addrs ?t) h h2" using h2(4) unfolding frame_def by auto
        moreover have "h2 a = None" using frameD [OF h2(4) d(1)] by simp
        ultimately show ?thesis unfolding ge using h2 rl by auto
      qed
    next
      case False
      from g_findMin_inorder [OF False] obtain m km mr where
        m: "g_findMin r = GNode GLeaf m km mr" by blast
      have tr: "tree_at ?h1 r" using w1 by (simp add: wft_def)
      note ma = g_eraseMin_addrs [OF tr m]
      from g_findMin_node [OF tr m] obtain mn where mn: "?h1 m = Some mn" "key mn = km" by blast
      have fm: "findMin ?h1 (root_ptr r) = ok (Some m, ?h1)"
        using findMin_spec [OF tr] m by simp
      let ?r = "g_eraseMin r"
      from eraseMin_spec [OF w1(2) ar False]
      obtain h3 where h3: "eraseMin ?h1 (root_ptr r) = ok (root_ptr ?r, h3)" "wft h3 ?r"
          "frame (addrs ?r) ?h1 h3" by blast
      have m3: "h3 m = Some mn" using frameD [OF h3(3) ma(2)] mn by simp
      let ?h4 = "h3(m \<mapsto> mn\<lparr>right := root_ptr ?r\<rparr>)"
      let ?n5 = "mn\<lparr>right := root_ptr ?r, left := root_ptr l\<rparr>"
      let ?h5 = "?h4(m \<mapsto> ?n5)"
      have as4: "assign_right h3 (Some m) (root_ptr ?r) = ok ?h4"
        using m3 by (simp add: assign_right_def)
      have as5: "assign_left ?h4 (Some m) (root_ptr l) = ok ?h5"
        by (simp add: assign_left_def)
      have dm: "m \<notin> addrs l" "m \<notin> addrs ?r" "addrs l \<inter> addrs ?r = {}" "m \<noteq> a"
        using ma d by auto
      have ml: "m < heap_limit" using tree_at_card [OF tr] ma(1) by auto
      have wl5: "wft ?h5 l" using wft_frame [OF h3(3), of l] w1(1) dm by auto
      have wr5: "wft ?h5 ?r" using h3(2) dm by simp
      from avl_g_eraseMin [OF ar] have ar': "avl ?r" and hr: "ht ?r = ht r \<or> ht ?r + 1 = ht r"
        by auto
      have dh': "\<bar>int (ht l) - int (ht ?r)\<bar> \<le> 2" using dh hr by auto
      have "\<exists>h6. balance ?h5 (Some m) = ok (root_ptr (g_balance (GNode l m km ?r)), h6) \<and>
           wft h6 (g_balance (GNode l m km ?r)) \<and>
           parents_ok h6 None (g_balance (GNode l m km ?r)) \<and>
           frame (insert m (addrs l \<union> addrs ?r)) ?h5 h6"
        by (rule balance_spec [where n = ?n5]) (use mn wl5 wr5 al ar' dh' dm ml in auto)
      then obtain h6 where h6: "balance ?h5 (Some m) = ok (root_ptr (g_balance (GNode l m km ?r)), h6)"
          "wft h6 (g_balance (GNode l m km ?r))"
          "parents_ok h6 None (g_balance (GNode l m km ?r))"
          "frame (insert m (addrs l \<union> addrs ?r)) ?h5 h6" by blast
      have ge: "g_erase k ?t = g_balance (GNode l m km ?r)" using True m by simp
      obtain ra where ra: "root_ptr r = Some ra" using False by (cases r) auto
      have "AVLErase h (Some a) k = ok (root_ptr (g_balance (GNode l m km ?r)), h6)"
        by (subst AVLErase.simps) (use n True ra del fm h3(1) as4 as5 h6(1) in simp)
      moreover have "frame (addrs ?t) h h6"
        using h3(3) h6(4) ma unfolding frame_def by auto
      moreover have "addrs ?t - addrs (g_balance (GNode l m km ?r)) = {a}"
      proof -
        from g_findMin_inorder [OF False] m have "inorder r = (m, km) # inorder ?r" by simp
        then have "addrs r = insert m (addrs ?r)" by (simp add: addrs_inorder)
        with d dm show ?thesis by auto
      qed
      moreover have "h6 a = None"
      proof -
        have "a \<notin> insert m (addrs l \<union> addrs ?r)" using d dm ma by auto
        from frameD [OF h6(4) this] have "h6 a = h3 a" using dm by simp
        also have "h3 a = ?h1 a" using frameD [OF h3(3), of a] ma d by auto
        finally show ?thesis by simp
      qed
      ultimately show ?thesis using h6 unfolding ge by simp
    qed
  next
    case False
    show ?thesis
    proof (cases "ka < k")
      case True
      let ?r = "g_erase k r"
      from GNode.IH(2) [OF w(2) ar br]
      obtain h1 where h1: "AVLErase h (root_ptr r) k = ok (root_ptr ?r, h1)" "wft h1 ?r"
          "frame (addrs r) h h1" "\<forall>x \<in> addrs r - addrs ?r. h1 x = None" by blast
      have sub: "addrs ?r \<subseteq> addrs r" by (rule addrs_g_erase_subset [OF br])
      have d': "a \<notin> addrs ?r" "addrs l \<inter> addrs ?r = {}" using sub d by auto
      have a1: "h1 a = Some n" using frameD [OF h1(3) d(2)] n by simp
      let ?n2 = "n\<lparr>right := root_ptr ?r\<rparr>"
      let ?h2 = "h1(a \<mapsto> ?n2)"
      have as: "assign_right h1 (Some a) (root_ptr ?r) = ok ?h2"
        using a1 by (simp add: assign_right_def)
      have wl2: "wft ?h2 l" using wft_frame [OF h1(3), of l] w(1) d by auto
      have wr2: "wft ?h2 ?r" using h1(2) d' by simp
      from avl_g_erase [OF ar, of k] have ar': "avl ?r" and hr: "ht ?r = ht r \<or> ht ?r + 1 = ht r"
        by auto
      have dh': "\<bar>int (ht l) - int (ht ?r)\<bar> \<le> 2" using dh hr by auto
      have "\<exists>h3. balance ?h2 (Some a) = ok (root_ptr (g_balance (GNode l a ka ?r)), h3) \<and>
           wft h3 (g_balance (GNode l a ka ?r)) \<and>
           parents_ok h3 None (g_balance (GNode l a ka ?r)) \<and>
           frame (insert a (addrs l \<union> addrs ?r)) ?h2 h3"
        by (rule balance_spec [where n = ?n2]) (use n wl2 wr2 al ar' dh' d d' in auto)
      then obtain h3 where h3: "balance ?h2 (Some a) = ok (root_ptr (g_balance (GNode l a ka ?r)), h3)"
          "wft h3 (g_balance (GNode l a ka ?r))"
          "parents_ok h3 None (g_balance (GNode l a ka ?r))"
          "frame (insert a (addrs l \<union> addrs ?r)) ?h2 h3" by blast
      have ge: "g_erase k ?t = g_balance (GNode l a ka ?r)" using True False by simp
      have "AVLErase h (Some a) k = ok (root_ptr (g_balance (GNode l a ka ?r)), h3)"
        by (subst AVLErase.simps) (use n True False h1(1) as h3(1) in simp)
      moreover have "frame (addrs ?t) h h3"
        using h1(3) h3(4) sub unfolding frame_def by auto
      moreover have "\<forall>x \<in> addrs ?t - addrs (g_balance (GNode l a ka ?r)). h3 x = None"
      proof
        fix x assume "x \<in> addrs ?t - addrs (g_balance (GNode l a ka ?r))"
        then have x: "x \<in> addrs r - addrs ?r" "x \<noteq> a" "x \<notin> addrs l" by auto
        then have "x \<notin> insert a (addrs l \<union> addrs ?r)" by auto
        from frameD [OF h3(4) this] x h1(4) show "h3 x = None" by simp
      qed
      ultimately show ?thesis using h3 unfolding ge by simp
    next
      case nl: False
      let ?l = "g_erase k l"
      from GNode.IH(1) [OF w(1) al bl]
      obtain h1 where h1: "AVLErase h (root_ptr l) k = ok (root_ptr ?l, h1)" "wft h1 ?l"
          "frame (addrs l) h h1" "\<forall>x \<in> addrs l - addrs ?l. h1 x = None" by blast
      have sub: "addrs ?l \<subseteq> addrs l" by (rule addrs_g_erase_subset [OF bl])
      have d': "a \<notin> addrs ?l" "addrs ?l \<inter> addrs r = {}" using sub d by auto
      have a1: "h1 a = Some n" using frameD [OF h1(3) d(1)] n by simp
      let ?n2 = "n\<lparr>left := root_ptr ?l\<rparr>"
      let ?h2 = "h1(a \<mapsto> ?n2)"
      have as: "assign_left h1 (Some a) (root_ptr ?l) = ok ?h2"
        using a1 by (simp add: assign_left_def)
      have wr2: "wft ?h2 r" using wft_frame [OF h1(3), of r] w(2) d by auto
      have wl2: "wft ?h2 ?l" using h1(2) d' by simp
      from avl_g_erase [OF al, of k] have al': "avl ?l" and hl: "ht ?l = ht l \<or> ht ?l + 1 = ht l"
        by auto
      have dh': "\<bar>int (ht ?l) - int (ht r)\<bar> \<le> 2" using dh hl by auto
      have "\<exists>h3. balance ?h2 (Some a) = ok (root_ptr (g_balance (GNode ?l a ka r)), h3) \<and>
           wft h3 (g_balance (GNode ?l a ka r)) \<and>
           parents_ok h3 None (g_balance (GNode ?l a ka r)) \<and>
           frame (insert a (addrs ?l \<union> addrs r)) ?h2 h3"
        by (rule balance_spec [where n = ?n2]) (use n wl2 wr2 al' ar dh' d d' in auto)
      then obtain h3 where h3: "balance ?h2 (Some a) = ok (root_ptr (g_balance (GNode ?l a ka r)), h3)"
          "wft h3 (g_balance (GNode ?l a ka r))"
          "parents_ok h3 None (g_balance (GNode ?l a ka r))"
          "frame (insert a (addrs ?l \<union> addrs r)) ?h2 h3" by blast
      have ge: "g_erase k ?t = g_balance (GNode ?l a ka r)" using nl False by simp
      have nlt: "\<not> key n < k" using nl n by simp
      have "AVLErase h (Some a) k = ok (root_ptr (g_balance (GNode ?l a ka r)), h3)"
        by (subst AVLErase.simps) (use n nlt False h1(1) as h3(1) in simp)
      moreover have "frame (addrs ?t) h h3"
        using h1(3) h3(4) sub unfolding frame_def by auto
      moreover have "\<forall>x \<in> addrs ?t - addrs (g_balance (GNode ?l a ka r)). h3 x = None"
      proof
        fix x assume "x \<in> addrs ?t - addrs (g_balance (GNode ?l a ka r))"
        then have x: "x \<in> addrs l - addrs ?l" "x \<noteq> a" "x \<notin> addrs r" by auto
        then have "x \<notin> insert a (addrs ?l \<union> addrs r)" by auto
        from frameD [OF h3(4) this] x h1(4) show "h3 x = None" by simp
      qed
      ultimately show ?thesis using h3 unfolding ge by simp
    qed
  qed
qed

section \<open>Reachable states and their invariant\<close>

definition set_inv :: "'a::linorder state \<Rightarrow> sid \<Rightarrow> 'a gtree \<Rightarrow> bool" where
  "set_inv s i t = (root s i = root_ptr t \<and> wft (nodes s) t \<and> parents_ok (nodes s) None t \<and>
     avl t \<and> bst t)"

definition world_inv :: "'a::linorder state \<Rightarrow> (sid \<Rightarrow> 'a gtree) \<Rightarrow> bool" where
  "world_inv s f = ((\<forall>i. set_inv s i (f i)) \<and> (\<forall>i j. i \<noteq> j \<longrightarrow> addrs (f i) \<inter> addrs (f j) = {}))"

lemma world_inv_init: "world_inv init_state (\<lambda>i. GLeaf)"
  by (simp add: world_inv_def set_inv_def init_state_def)

lemma tree_at_unique:
  "tree_at h t \<Longrightarrow> tree_at h t' \<Longrightarrow> root_ptr t = root_ptr t' \<Longrightarrow> t = t'"
proof (induction t arbitrary: t')
  case GLeaf
  then show ?case by (cases t') auto
next
  case (GNode l a k r)
  then obtain l' k' r' where t': "t' = GNode l' a k' r'" by (cases t') auto
  from GNode.prems(1) obtain n where n: "h a = Some n" "key n = k" "left n = root_ptr l"
      "right n = root_ptr r" and s: "tree_at h l" "tree_at h r"
    by (auto split: option.splits)
  from GNode.prems(2) n have n': "k' = k" "root_ptr l = root_ptr l'" "root_ptr r = root_ptr r'"
    and s': "tree_at h l'" "tree_at h r'"
    unfolding t' by simp_all
  from GNode.IH(1) [OF s(1) s'(1) n'(2)] GNode.IH(2) [OF s(2) s'(2) n'(3)] t' n'(1)
  show ?case by simp
qed

lemma heap_determined:
  "wft h t \<Longrightarrow> parents_ok h p t \<Longrightarrow> wft h' t \<Longrightarrow> parents_ok h' p t \<Longrightarrow> a \<in> addrs t
   \<Longrightarrow> h' a = h a"
proof (induction t arbitrary: p)
  case GLeaf
  then show ?case by simp
next
  case (GNode l b k r)
  from wft_GNodeD [OF GNode.prems(1)] obtain n where n: "h b = Some n" "key n = k"
      "left n = root_ptr l" "right n = root_ptr r" and w: "wft h l" "wft h r" by blast
  from wft_GNodeD [OF GNode.prems(3)] obtain n' where n': "h' b = Some n'" "key n' = k"
      "left n' = root_ptr l" "right n' = root_ptr r" and w': "wft h' l" "wft h' r" by blast
  from GNode.prems(1,3) n n' have c: "unat (height n') = unat (height n)" "unat (cnt n') = unat (cnt n)"
    by (auto simp: wft_def)
  from GNode.prems(2,4) n n' have p: "parent n' = parent n"
    and pp: "parents_ok h (Some b) l" "parents_ok h (Some b) r"
       "parents_ok h' (Some b) l" "parents_ok h' (Some b) r" by auto
  from c have "height n' = height n" "cnt n' = cnt n" by (simp_all add: word_unat_eq_iff)
  with n n' p have "n' = n" by (intro TreeNode.equality) simp_all
  with n n' GNode.IH(1) [OF w(1) pp(1) w'(1) pp(3)] GNode.IH(2) [OF w(2) pp(2) w'(2) pp(4)]
    GNode.prems(5)
  show ?case by auto
qed

lemma set_inv_others:
  assumes f: "frame A h h'" and j: "set_inv \<lparr>nodes = h, root = rt\<rparr> j t" and d: "addrs t \<inter> A = {}"
  shows "set_inv \<lparr>nodes = h', root = rt\<rparr> j t"
  using j wft_frame [OF f d] parents_ok_frame [OF f d] by (simp add: set_inv_def)

lemma insert_world:
  assumes w: "world_inv s f" and pre: "v \<in> keys (f i) \<or> first_free (nodes s) 0 = Some x"
  shows "\<exists>s'. insert_op s i v = ok s' \<and> world_inv s' (f(i := g_insert x v (f i))) \<and>
           frame (addrs (g_insert x v (f i))) (nodes s) (nodes s')"
proof -
  let ?t = "f i" and ?t' = "g_insert x v (f i)"
  from w have si: "set_inv s i ?t" by (simp add: world_inv_def)
  then have i: "root s i = root_ptr ?t" "wft (nodes s) ?t" "parents_ok (nodes s) None ?t"
      "avl ?t" "bst ?t" by (simp_all add: set_inv_def)
  from AVLInsert_spec [OF i(2,4,5) pre, of None] i(3)
  obtain h' where h': "AVLInsert (nodes s) (root_ptr ?t) v None = ok (root_ptr ?t', h')"
      "wft h' ?t'" "frame (addrs ?t') (nodes s) h'" "parents_ok h' None ?t'" by blast
  let ?s' = "set_root s i (root_ptr ?t', h')"
  have op: "insert_op s i v = ok ?s'" using h'(1) i(1) by (simp add: insert_op_def)
  have new: "\<forall>y \<in> addrs ?t'. y \<in> addrs ?t \<or> nodes s y = None"
    by (rule g_insert_new_addrs [OF i(5,4) pre])
  have inv_i: "set_inv ?s' i ?t'"
    using h' avl_g_insert [OF i(4), of x v] bst_g_insert [OF i(5), of x v]
    by (simp add: set_inv_def set_root_def)
  have disj: "addrs (f j) \<inter> addrs ?t' = {}" if "j \<noteq> i" for j
  proof -
    from w that have "addrs (f j) \<inter> addrs ?t = {}" by (auto simp: world_inv_def)
    moreover from w have "wft (nodes s) (f j)" by (simp add: world_inv_def set_inv_def)
    ultimately show ?thesis using new wft_dom [of "nodes s" "f j"] by blast
  qed
  have inv_j: "set_inv ?s' j (f j)" if "j \<noteq> i" for j
  proof -
    from w have "set_inv s j (f j)" by (simp add: world_inv_def)
    then have "wft (nodes s) (f j)" "parents_ok (nodes s) None (f j)" "root s j = root_ptr (f j)"
      "avl (f j)" "bst (f j)" by (simp_all add: set_inv_def)
    with wft_frame [OF h'(3) disj [OF that]] parents_ok_frame [OF h'(3) disj [OF that]] that
    show ?thesis by (simp add: set_inv_def set_root_def)
  qed
  have "world_inv ?s' (f(i := ?t'))"
    unfolding world_inv_def
  proof (intro conjI allI impI)
    fix j show "set_inv ?s' j ((f(i := ?t')) j)"
      using inv_i inv_j by (cases "j = i") simp_all
  next
    fix j j' :: sid assume "j \<noteq> j'"
    then show "addrs ((f(i := ?t')) j) \<inter> addrs ((f(i := ?t')) j') = {}"
      using disj [of j] disj [of j'] w by (auto simp: world_inv_def)
  qed
  moreover have "nodes ?s' = h'" by (simp add: set_root_def)
  ultimately show ?thesis using op h'(3) by auto
qed

lemma insert_fail:
  assumes w: "world_inv s f" and pre: "v \<notin> keys (f i)" "first_free (nodes s) 0 = None"
  shows "insert_op s i v = raise BadAlloc"
proof -
  from w have "root s i = root_ptr (f i)" "wft (nodes s) (f i)"
    by (simp_all add: world_inv_def set_inv_def)
  with AVLInsert_BadAlloc [OF this(2) pre, of None] show ?thesis
    by (simp add: insert_op_def)
qed

lemma erase_world:
  assumes w: "world_inv s f"
  shows "\<exists>s'. erase_op s i v = ok s' \<and> world_inv s' (f(i := g_erase v (f i))) \<and>
           frame (addrs (f i)) (nodes s) (nodes s') \<and>
           (\<forall>x \<in> addrs (f i) - addrs (g_erase v (f i)). nodes s' x = None)"
proof -
  let ?t = "f i" and ?t' = "g_erase v (f i)"
  from w have si: "set_inv s i ?t" by (simp add: world_inv_def)
  then have i: "root s i = root_ptr ?t" "wft (nodes s) ?t" "parents_ok (nodes s) None ?t"
      "avl ?t" "bst ?t" by (simp_all add: set_inv_def)
  from AVLErase_spec [OF i(2,4,5), of v]
  obtain h' where h': "AVLErase (nodes s) (root_ptr ?t) v = ok (root_ptr ?t', h')"
      "wft h' ?t'" "parents_ok h' None ?t'" "frame (addrs ?t) (nodes s) h'"
      "\<forall>x \<in> addrs ?t - addrs ?t'. h' x = None" by blast
  let ?s' = "set_root s i (root_ptr ?t', h')"
  have op: "erase_op s i v = ok ?s'" using h'(1) i(1) by (simp add: erase_op_def)
  have sub: "addrs ?t' \<subseteq> addrs ?t" by (rule addrs_g_erase_subset [OF i(5)])
  have inv_i: "set_inv ?s' i ?t'"
    using h' avl_g_erase [OF i(4), of v] bst_g_erase [OF i(5), of v]
    by (simp add: set_inv_def set_root_def)
  have disj: "addrs (f j) \<inter> addrs ?t = {}" if "j \<noteq> i" for j
    using w that by (auto simp: world_inv_def)
  have inv_j: "set_inv ?s' j (f j)" if "j \<noteq> i" for j
  proof -
    from w have "set_inv s j (f j)" by (simp add: world_inv_def)
    then have "wft (nodes s) (f j)" "parents_ok (nodes s) None (f j)" "root s j = root_ptr (f j)"
      "avl (f j)" "bst (f j)" by (simp_all add: set_inv_def)
    with wft_frame [OF h'(4) disj [OF that]] parents_ok_frame [OF h'(4) disj [OF that]] that
    show ?thesis by (simp add: set_inv_def set_root_def)
  qed
  have "world_inv ?s' (f(i := ?t'))"
    unfolding world_inv_def
  proof (intro conjI allI impI)
    fix j show "set_inv ?s' j ((f(i := ?t')) j)"
      using inv_i inv_j by (cases "j = i") simp_all
  next
    fix j j' :: sid assume "j \<noteq> j'"
    then show "addrs ((f(i := ?t')) j) \<inter> addrs ((f(i := ?t')) j') = {}"
      using disj [of j] disj [of j'] sub w unfolding world_inv_def
      by (cases "j = i"; cases "j' = i") (simp_all, blast+)
  qed
  moreover have "nodes ?s' = h'" by (simp add: set_root_def)
  ultimately show ?thesis using op h'(4,5) by auto
qed

lemma insert_op_cases:
  assumes w: "world_inv s f"
  shows "insert_op s i v = raise BadAlloc \<and> v \<notin> keys (f i) \<and> first_free (nodes s) 0 = None \<or>
    (\<exists>s' x. insert_op s i v = ok s' \<and> world_inv s' (f(i := g_insert x v (f i))) \<and>
        (v \<in> keys (f i) \<or> first_free (nodes s) 0 = Some x))"
proof (cases "v \<in> keys (f i) \<or> (\<exists>x. first_free (nodes s) 0 = Some x)")
  case True
  then obtain x where "v \<in> keys (f i) \<or> first_free (nodes s) 0 = Some x" by auto
  from insert_world [OF w this] this show ?thesis by blast
next
  case False
  then have "v \<notin> keys (f i)" "first_free (nodes s) 0 = None" by auto
  with insert_fail [OF w this] show ?thesis by simp
qed

section \<open>Searches\<close>

subsection \<open>searches on ghost trees\<close>

fun g_find :: "'a::linorder \<Rightarrow> 'a gtree \<Rightarrow> ptr" where
  "g_find k GLeaf = None"
| "g_find k (GNode l a ka r) =
     (if isKeyEqual ka k then Some a else if ka < k then g_find k r else g_find k l)"

fun g_lower_bound :: "'a::linorder \<Rightarrow> 'a gtree \<Rightarrow> ptr" where
  "g_lower_bound k GLeaf = None"
| "g_lower_bound k (GNode l a ka r) =
     (if isKeyEqual ka k then Some a
      else if k < ka then (case g_lower_bound k l of Some x \<Rightarrow> Some x | None \<Rightarrow> Some a)
      else g_lower_bound k r)"

fun g_findMax :: "'a gtree \<Rightarrow> 'a gtree" where
  "g_findMax GLeaf = GLeaf"
| "g_findMax (GNode l a k r) = (if r = GLeaf then GNode l a k r else g_findMax r)"

lemma g_find_None: "bst t \<Longrightarrow> g_find k t = None \<longleftrightarrow> k \<notin> keys t"
  by (induction t) auto

lemma g_find_Some: "g_find k t = Some a \<Longrightarrow> (a, k) \<in> set (inorder t)"
  by (induction t) (auto split: if_splits)

lemma g_lower_bound_None: "bst t \<Longrightarrow> g_lower_bound k t = None \<longleftrightarrow> (\<forall>x \<in> keys t. x < k)"
proof (induction t)
  case GLeaf
  then show ?case by simp
next
  case (GNode l b kb r)
  then have kl: "\<forall>x \<in> keys l. x < kb" and IH: "g_lower_bound k r = None \<longleftrightarrow> (\<forall>x \<in> keys r. x < k)"
    by auto
  show ?case
  proof (cases "kb < k")
    case True
    with kl have "\<forall>x \<in> keys l. x < k" by (auto intro: less_trans)
    with True IH show ?thesis by auto
  next
    case False
    then show ?thesis by (auto split: option.splits)
  qed
qed

lemma g_lower_bound_Some:
  "bst t \<Longrightarrow> g_lower_bound k t = Some a \<Longrightarrow>
     \<exists>c. (a, c) \<in> set (inorder t) \<and> k \<le> c \<and> (\<forall>x \<in> keys t. k \<le> x \<longrightarrow> c \<le> x)"
proof (induction t)
  case GLeaf
  then show ?case by simp
next
  case (GNode l b kb r)
  then have bl: "bst l" and br: "bst r" and kl: "\<forall>x \<in> keys l. x < kb" and kr: "\<forall>x \<in> keys r. kb < x"
    by auto
  show ?case
  proof (cases "kb = k")
    case True
    with GNode.prems kl kr show ?thesis by (auto intro!: exI [of _ k])
  next
    case False
    show ?thesis
    proof (cases "k < kb")
      case True
      show ?thesis
      proof (cases "g_lower_bound k l")
        case None
        with g_lower_bound_None [OF bl, of k] have "\<forall>x \<in> keys l. x < k" by simp
        moreover from None True False GNode.prems(2) have "a = b" by simp
        ultimately show ?thesis using True kr by (auto intro!: exI [of _ kb])
      next
        case (Some x)
        with True False GNode.prems(2) have "g_lower_bound k l = Some a" by simp
        from GNode.IH(1) [OF bl this] obtain c where c: "(a, c) \<in> set (inorder l)" "k \<le> c"
          "\<forall>x \<in> keys l. k \<le> x \<longrightarrow> c \<le> x" by blast
        from c(1) have "c \<in> keys l" by (force simp: keys_inorder)
        with kl have "c < kb" by simp
        with c kr show ?thesis by (intro exI [of _ c]) fastforce
      qed
    next
      case nl: False
      with False GNode.prems(2) have "g_lower_bound k r = Some a" by simp
      from GNode.IH(2) [OF br this] obtain c where c: "(a, c) \<in> set (inorder r)" "k \<le> c"
        "\<forall>x \<in> keys r. k \<le> x \<longrightarrow> c \<le> x" by blast
      with kl nl False show ?thesis by (intro exI [of _ c]) fastforce
    qed
  qed
qed

lemma AVLFind_spec: "tree_at h t \<Longrightarrow> AVLFind h (root_ptr t) k = ok (g_find k t, h)"
proof (induction t)
  case GLeaf
  then show ?case by (subst AVLFind.simps) simp
next
  case (GNode l a ka r)
  then obtain n where "h a = Some n" "key n = ka" "left n = root_ptr l" "right n = root_ptr r"
    by (auto split: option.splits)
  with GNode show ?case by (subst AVLFind.simps) simp
qed

lemma AVLLowerBound_spec:
  "tree_at h t \<Longrightarrow> AVLLowerBound h (root_ptr t) k = ok (g_lower_bound k t, h)"
proof (induction t)
  case GLeaf
  then show ?case by (subst AVLLowerBound.simps) simp
next
  case (GNode l a ka r)
  then obtain n where "h a = Some n" "key n = ka" "left n = root_ptr l" "right n = root_ptr r"
    by (auto split: option.splits)
  with GNode show ?case by (subst AVLLowerBound.simps) (simp split: option.splits)
qed

lemma findMax_spec: "tree_at h t \<Longrightarrow> findMax h (root_ptr t) = ok (root_ptr (g_findMax t), h)"
proof (induction t)
  case GLeaf
  then show ?case by (subst findMax.simps) simp
next
  case (GNode l a k r)
  then obtain n where n: "h a = Some n" "right n = root_ptr r" by (auto split: option.splits)
  show ?case
  proof (cases r)
    case GLeaf
    with n show ?thesis by (subst findMax.simps) simp
  next
    case (GNode rl ra rk rr)
    with n GNode.IH(2) GNode.prems show ?thesis by (subst findMax.simps) simp
  qed
qed

subsection \<open>functions that write nothing\<close>

lemma rbind_eq_ok:
  "rbind m f = ok y \<longleftrightarrow> (\<exists>x. m = ok x \<and> f x = ok y)"
  by (auto simp: rbind_def ok_def split: option.splits sum.splits)

lemma deref_eq_ok: "deref h p = ok n \<longleftrightarrow> (\<exists>a. p = Some a \<and> h a = Some n)"
  by (auto simp: deref_def split: option.splits)

lemma findMin_frame:
  assumes "findMin h t = Some y"
  shows "\<forall>p h'. y = Inr (p, h') \<longrightarrow> h' = h"
proof (rule findMin.raw_induct [where P = "\<lambda>h t y. \<forall>p h'. y = Inr (p, h') \<longrightarrow> h' = h", OF _ assms],
    goal_cases)
  case (1 f h t y)
  have IH: "f h1 t1 = ok (p, h') \<Longrightarrow> h' = h1" for h1 t1 p h'
    using 1(1) [of h1 t1 "Inr (p, h')"] by (simp add: ok_def)
  show ?case
  proof (intro allI impI)
    fix p h' assume "y = Inr (p, h')"
    with 1(2) have "(case t of None \<Rightarrow> ok (t, h)
     | Some a \<Rightarrow> rbind (deref h t) (\<lambda>n.
         case left n of None \<Rightarrow> ok (t, h) | Some l \<Rightarrow> f h (left n))) = ok (p, h')" by (simp add: ok_def)
    then show "h' = h"
      by (auto simp: rbind_eq_ok split: option.splits if_splits dest: IH)
  qed
qed

lemma findMax_frame:
  assumes "findMax h t = Some y"
  shows "\<forall>p h'. y = Inr (p, h') \<longrightarrow> h' = h"
proof (rule findMax.raw_induct [where P = "\<lambda>h t y. \<forall>p h'. y = Inr (p, h') \<longrightarrow> h' = h", OF _ assms],
    goal_cases)
  case (1 f h t y)
  have IH: "f h1 t1 = ok (p, h') \<Longrightarrow> h' = h1" for h1 t1 p h'
    using 1(1) [of h1 t1 "Inr (p, h')"] by (simp add: ok_def)
  show ?case
  proof (intro allI impI)
    fix p h' assume "y = Inr (p, h')"
    with 1(2) have "(case t of None \<Rightarrow> ok (t, h)
     | Some a \<Rightarrow> rbind (deref h t) (\<lambda>n.
         case right n of None \<Rightarrow> ok (t, h) | Some r \<Rightarrow> f h (right n))) = ok (p, h')" by (simp add: ok_def)
    then show "h' = h"
      by (auto simp: rbind_eq_ok split: option.splits if_splits dest: IH)
  qed
qed

lemma nextNode_loop_frame:
  assumes "nextNode_loop h t = Some y"
  shows "\<forall>p h'. y = Inr (p, h') \<longrightarrow> h' = h"
proof (rule nextNode_loop.raw_induct [where P = "\<lambda>h t y. \<forall>p h'. y = Inr (p, h') \<longrightarrow> h' = h", OF _ assms],
    goal_cases)
  case (1 f h t y)
  have IH: "f h1 t1 = ok (p, h') \<Longrightarrow> h' = h1" for h1 t1 p h'
    using 1(1) [of h1 t1 "Inr (p, h')"] by (simp add: ok_def)
  show ?case
  proof (intro allI impI)
    fix p h' assume "y = Inr (p, h')"
    with 1(2) have "rbind (deref h t) (\<lambda>n.
       case parent n of None \<Rightarrow> ok (parent n, h)
       | Some pa \<Rightarrow> rbind (deref h (parent n)) (\<lambda>pn.
           if right pn = t then f h (parent n) else ok (parent n, h))) = ok (p, h')" by (simp add: ok_def)
    then show "h' = h"
      by (auto simp: rbind_eq_ok split: option.splits if_splits dest: IH)
  qed
qed

lemma prevNode_loop_frame:
  assumes "prevNode_loop h t = Some y"
  shows "\<forall>p h'. y = Inr (p, h') \<longrightarrow> h' = h"
proof (rule prevNode_loop.raw_induct [where P = "\<lambda>h t y. \<forall>p h'. y = Inr (p, h') \<longrightarrow> h' = h", OF _ assms],
    goal_cases)
  case (1 f h t y)
  have IH: "f h1 t1 = ok (p, h') \<Longrightarrow> h' = h1" for h1 t1 p h'
    using 1(1) [of h1 t1 "Inr (p, h')"] by (simp add: ok_def)
  show ?case
  proof (intro allI impI)
    fix p h' assume "y = Inr (p, h')"
    with 1(2) have "rbind (deref h t) (\<lambda>n.
       case parent n of None \<Rightarrow> ok (parent n, h)
       | Some pa \<Rightarrow> rbind (deref h (parent n)) (\<lambda>pn.
           if left pn = t then f h (parent n) else ok (parent n, h))) = ok (p, h')" by (simp add: ok_def)
    then show "h' = h"
      by (auto simp: rbind_eq_ok split: option.splits if_splits dest: IH)
  qed
qed

lemma AVLFind_frame:
  assumes "AVLFind h t k = Some y"
  shows "\<forall>p h'. y = Inr (p, h') \<longrightarrow> h' = h"
proof (rule AVLFind.raw_induct [where P = "\<lambda>h t k y. \<forall>p h'. y = Inr (p, h') \<longrightarrow> h' = h", OF _ assms],
    goal_cases)
  case (1 f h t k y)
  have IH: "f h1 t1 k1 = ok (p, h') \<Longrightarrow> h' = h1" for h1 t1 k1 p h'
    using 1(1) [of h1 t1 k1 "Inr (p, h')"] by (simp add: ok_def)
  show ?case
  proof (intro allI impI)
    fix p h' assume "y = Inr (p, h')"
    with 1(2) have "(case t of None \<Rightarrow> ok (None, h)
     | Some a \<Rightarrow>
        rbind (deref h t) (\<lambda>n.
          if isKeyEqual (key n) k then ok (t, h)
          else if key n < k then f h (right n) k
          else f h (left n) k)) = ok (p, h')" by (simp add: ok_def)
    then show "h' = h"
      by (auto simp: rbind_eq_ok split: option.splits if_splits dest: IH)
  qed
qed

lemma AVLLowerBound_frame:
  assumes "AVLLowerBound h t k = Some y"
  shows "\<forall>p h'. y = Inr (p, h') \<longrightarrow> h' = h"
proof (rule AVLLowerBound.raw_induct [where P = "\<lambda>h t k y. \<forall>p h'. y = Inr (p, h') \<longrightarrow> h' = h", OF _ assms],
    goal_cases)
  case (1 f h t k y)
  have IH: "f h1 t1 k1 = ok (p, h') \<Longrightarrow> h' = h1" for h1 t1 k1 p h'
    using 1(1) [of h1 t1 k1 "Inr (p, h')"] by (simp add: ok_def)
  show ?case
  proof (intro allI impI)
    fix p h' assume "y = Inr (p, h')"
    with 1(2) have "(case t of None \<Rightarrow> ok (None, h)
     | Some a \<Rightarrow>
        rbind (deref h t) (\<lambda>n.
          if isKeyEqual (key n) k then ok (t, h)
          else if k < key n then
            rbind (f h (left n) k) (\<lambda>(tmp, h1).
              case tmp of Some x \<Rightarrow> ok (tmp, h1) | None \<Rightarrow> ok (t, h1))
          else f h (right n) k)) = ok (p, h')" by (simp add: ok_def)
    then show "h' = h"
      by (auto simp: rbind_eq_ok split: option.splits if_splits dest: IH)
  qed
qed

section \<open>The operations of the container on reachable states\<close>

lemma g_erase_absent: "bst t \<Longrightarrow> avl t \<Longrightarrow> k \<notin> keys t \<Longrightarrow> g_erase k t = t"
proof (induction t)
  case GLeaf
  then show ?case by simp
next
  case (GNode l a ka r)
  then have "g_erase k l = l" "g_erase k r = r" "ka \<noteq> k" by auto
  with GNode.prems(2) show ?case by (simp add: avl_g_balance_self)
qed

lemma filter_one_less:
  "sorted_wrt (<) (map snd xs) \<Longrightarrow> k \<in> snd ` set xs \<Longrightarrow>
     length (filter (\<lambda>p. snd p \<noteq> (k::'a::linorder)) xs) + 1 = length xs"
proof (induction xs)
  case Nil
  then show ?case by simp
next
  case (Cons p ps)
  show ?case
  proof (cases "snd p = k")
    case True
    with Cons.prems(1) have "\<forall>q \<in> set ps. snd q \<noteq> k" by auto
    then have "filter (\<lambda>p. snd p \<noteq> k) ps = ps" by (simp add: filter_id_conv)
    with True show ?thesis by simp
  next
    case False
    with Cons show ?thesis by auto
  qed
qed

lemma sz_g_erase_present: "bst t \<Longrightarrow> k \<in> keys t \<Longrightarrow> sz (g_erase k t) + 1 = sz t"
  using filter_one_less [of "inorder t" k]
  by (simp add: sz_inorder inorder_g_erase bst_iff_sorted keys_inorder)

lemma state_eqI: "nodes s' = nodes s \<Longrightarrow> root s' = root s \<Longrightarrow> state.more s' = state.more s \<Longrightarrow> s' = s"
  by (rule state.equality)

lemma world_same_tree:
  assumes w: "world_inv s f" and w': "world_inv s' f" and fr: "frame (addrs (f i)) (nodes s) (nodes s')"
  shows "nodes s' = nodes s" "root s' = root s"
proof -
  have "nodes s' x = nodes s x" for x
  proof (cases "x \<in> addrs (f i)")
    case True
    from w w' have "wft (nodes s) (f i)" "parents_ok (nodes s) None (f i)"
      "wft (nodes s') (f i)" "parents_ok (nodes s') None (f i)"
      by (simp_all add: world_inv_def set_inv_def)
    from heap_determined [OF this True] show ?thesis .
  next
    case False
    with fr show ?thesis by (simp add: frame_def)
  qed
  then show "nodes s' = nodes s" by (rule ext)
  from w w' have "root s' j = root s j" for j by (simp add: world_inv_def set_inv_def)
  then show "root s' = root s" by (rule ext)
qed

lemma set_root_more [simp]: "state.more (set_root s i rh) = state.more s"
  by (simp add: set_root_def)

lemma insert_op_more: "insert_op s i v = ok s' \<Longrightarrow> state.more s' = state.more s"
  by (auto simp: insert_op_def rbind_eq_ok)

lemma erase_op_more: "erase_op s i v = ok s' \<Longrightarrow> state.more s' = state.more s"
  by (auto simp: erase_op_def rbind_eq_ok)

lemma insert_present:
  assumes w: "world_inv s f" and k: "v \<in> keys (f i)"
  shows "insert_op s i v = ok s"
proof -
  from w have i: "avl (f i)" "bst (f i)" by (simp_all add: world_inv_def set_inv_def)
  from insert_world [OF w, of v i 0] k obtain s' where s': "insert_op s i v = ok s'"
      "world_inv s' (f(i := g_insert 0 v (f i)))" "frame (addrs (g_insert 0 v (f i))) (nodes s) (nodes s')"
    by blast
  have g: "g_insert 0 v (f i) = f i" by (rule g_insert_present [OF i(2) k i(1)])
  from s'(2,3) have "world_inv s' f" "frame (addrs (f i)) (nodes s) (nodes s')" by (simp_all add: g)
  from world_same_tree [OF w this] insert_op_more [OF s'(1)] have "s' = s" by (rule state_eqI)
  with s'(1) show ?thesis by simp
qed

lemma erase_absent:
  assumes w: "world_inv s f" and k: "v \<notin> keys (f i)"
  shows "erase_op s i v = ok s"
proof -
  from w have i: "avl (f i)" "bst (f i)" by (simp_all add: world_inv_def set_inv_def)
  from erase_world [OF w, of i v] obtain s' where s': "erase_op s i v = ok s'"
      "world_inv s' (f(i := g_erase v (f i)))" "frame (addrs (f i)) (nodes s) (nodes s')"
    by blast
  have g: "g_erase v (f i) = f i" by (rule g_erase_absent [OF i(2,1) k])
  from s'(2) have "world_inv s' f" by (simp add: g)
  from world_same_tree [OF w this s'(3)] erase_op_more [OF s'(1)] have "s' = s" by (rule state_eqI)
  with s'(1) show ?thesis by simp
qed

lemma size_op_world:
  assumes w: "world_inv s f"
  shows "size_op s i = ok (of_nat (sz (f i)), s)" "unat (of_nat (sz (f i)) :: 64 word) = sz (f i)"
proof -
  from w have i: "root s i = root_ptr (f i)" "wft (nodes s) (f i)"
    by (simp_all add: world_inv_def set_inv_def)
  then have t: "tree_at (nodes s) (f i)" "cached_ok (nodes s) (f i)" by (simp_all add: wft_def)
  from cnt_of_root [OF t] i(1) show "size_op s i = ok (of_nat (sz (f i)), s)"
    by (simp add: size_op_def)
  from tree_at_sz [OF t(1)] show "unat (of_nat (sz (f i)) :: 64 word) = sz (f i)"
    by (intro unat_of_nat64) (simp add: heap_limit_def)
qed

lemma find_op_world:
  assumes w: "world_inv s f"
  shows "find_op s i k = ok (\<lparr>it_node = g_find k (f i), it_parent = i\<rparr>, s)"
proof -
  from w have i: "root s i = root_ptr (f i)" "tree_at (nodes s) (f i)"
    by (simp_all add: world_inv_def set_inv_def wft_def)
  from AVLFind_spec [OF i(2), of k] i(1) show ?thesis by (simp add: find_op_def)
qed

lemma lower_bound_op_world:
  assumes w: "world_inv s f"
  shows "lower_bound_op s i k = ok (\<lparr>it_node = g_lower_bound k (f i), it_parent = i\<rparr>, s)"
proof -
  from w have i: "root s i = root_ptr (f i)" "tree_at (nodes s) (f i)"
    by (simp_all add: world_inv_def set_inv_def wft_def)
  from AVLLowerBound_spec [OF i(2), of k] i(1) show ?thesis by (simp add: lower_bound_op_def)
qed

lemma begin_op_world:
  assumes w: "world_inv s f"
  shows "begin_op s i = ok (\<lparr>it_node = root_ptr (g_findMin (f i)), it_parent = i\<rparr>, s)"
proof -
  from w have i: "root s i = root_ptr (f i)" "tree_at (nodes s) (f i)"
    by (simp_all add: world_inv_def set_inv_def wft_def)
  from findMin_spec [OF i(2)] i(1) show ?thesis by (simp add: begin_op_def)
qed

lemma world_inv_tree:
  "world_inv s f \<Longrightarrow> root s i = root_ptr (f i) \<and> tree_at (nodes s) (f i)"
  by (simp add: world_inv_def set_inv_def wft_def)

section \<open>Nodes of a tree, and functions that write nothing\<close>

fun subtrees :: "'a gtree \<Rightarrow> 'a gtree set" where
  "subtrees GLeaf = {}"
| "subtrees (GNode l a k r) = insert (GNode l a k r) (subtrees l \<union> subtrees r)"

lemma wft_subtree: "wft h t \<Longrightarrow> u \<in> subtrees t \<Longrightarrow> wft h u"
proof (induction t)
  case GLeaf
  then show ?case by simp
next
  case (GNode l a k r)
  from wft_GNodeD(2,3) [OF GNode.prems(1)] GNode show ?case by auto
qed

lemma avl_subtree: "avl t \<Longrightarrow> u \<in> subtrees t \<Longrightarrow> avl u"
  by (induction t) auto

lemma addrs_subtrees: "a \<in> addrs t \<longleftrightarrow> (\<exists>l k r. GNode l a k r \<in> subtrees t)"
  by (induction t) auto

lemma tree_at_node: "tree_at h t \<Longrightarrow> (a, k) \<in> set (inorder t) \<Longrightarrow> \<exists>n. h a = Some n \<and> key n = k"
  by (induction t) (auto split: option.splits)

lemma findMin_frame_ok: "findMin h t = ok (p, h') \<Longrightarrow> h' = h"
  using findMin_frame [of h t "Inr (p, h')"] by (simp add: ok_def)

lemma findMax_frame_ok: "findMax h t = ok (p, h') \<Longrightarrow> h' = h"
  using findMax_frame [of h t "Inr (p, h')"] by (simp add: ok_def)

lemma nextNode_loop_frame_ok: "nextNode_loop h t = ok (p, h') \<Longrightarrow> h' = h"
  using nextNode_loop_frame [of h t "Inr (p, h')"] by (simp add: ok_def)

lemma prevNode_loop_frame_ok: "prevNode_loop h t = ok (p, h') \<Longrightarrow> h' = h"
  using prevNode_loop_frame [of h t "Inr (p, h')"] by (simp add: ok_def)

lemma AVLFind_frame_ok: "AVLFind h t k = ok (p, h') \<Longrightarrow> h' = h"
  using AVLFind_frame [of h t k "Inr (p, h')"] by (simp add: ok_def)

lemma AVLLowerBound_frame_ok: "AVLLowerBound h t k = ok (p, h') \<Longrightarrow> h' = h"
  using AVLLowerBound_frame [of h t k "Inr (p, h')"] by (simp add: ok_def)

lemma ucast_minus_1: "(ucast (- 1 :: 64 word) :: 32 word) = - 1"
proof -
  have d: "is_down (ucast :: 64 word \<Rightarrow> 32 word)" by (simp add: is_down)
  have "(- 1 :: 64 word) = word_of_int (- 1)" by simp
  then show ?thesis by (simp only: ucast_down_wi [OF d]) simp
qed

lemma nextNode_frame: "nextNode h t = ok (p, h') \<Longrightarrow> h' = h"
  by (auto simp: nextNode_def rbind_eq_ok split: option.splits
      dest: findMin_frame_ok nextNode_loop_frame_ok)

lemma prevNode_frame: "prevNode h t = ok (p, h') \<Longrightarrow> h' = h"
  by (auto simp: prevNode_def rbind_eq_ok split: option.splits
      dest: findMax_frame_ok prevNode_loop_frame_ok)

section \<open>Cursors: traversal in both directions\<close>

text \<open>
  The two loops a caller writes over a set:
  \<^verbatim>\<open>for (it = begin(); it != end(); ++it) visit(*it);\<close> and
  \<^verbatim>\<open>it = end(); while (it != begin()) { --it; visit(*it); }\<close>
  They return the keys visited, in the order of the visits.
\<close>

partial_function (option) forward_keys ::
    "'a state \<Rightarrow> iterator \<Rightarrow> iterator \<Rightarrow> ('a list \<times> 'a state) res" where
  "forward_keys s it e =
     (if it_eq it e then ok ([], s)
      else rbind (it_deref s it) (\<lambda>(k, s1).
           rbind (it_incr s1 it) (\<lambda>(it', s2).
           rbind (forward_keys s2 it' e) (\<lambda>(ks, s3).
           ok (k # ks, s3)))))"

definition traverse_forward :: "'a state \<Rightarrow> sid \<Rightarrow> ('a list \<times> 'a state) res" where
  "traverse_forward s i =
     rbind (begin_op s i) (\<lambda>(b, s1).
     rbind (end_op s1 i) (\<lambda>(e, s2).
     forward_keys s2 b e))"

partial_function (option) backward_keys ::
    "'a state \<Rightarrow> iterator \<Rightarrow> iterator \<Rightarrow> ('a list \<times> 'a state) res" where
  "backward_keys s it b =
     (if it_eq it b then ok ([], s)
      else rbind (it_decr s it) (\<lambda>(it', s1).
           rbind (it_deref s1 it') (\<lambda>(k, s2).
           rbind (backward_keys s2 it' b) (\<lambda>(ks, s3).
           ok (k # ks, s3)))))"

definition traverse_backward :: "'a state \<Rightarrow> sid \<Rightarrow> ('a list \<times> 'a state) res" where
  "traverse_backward s i =
     rbind (end_op s i) (\<lambda>(e, s1).
     rbind (begin_op s1 i) (\<lambda>(b, s2).
     backward_keys s2 e b))"

subsection \<open>successors in the inorder list\<close>

fun first_ptr :: "(addr \<times> 'a) list \<Rightarrow> ptr" where
  "first_ptr [] = None"
| "first_ptr (p # xs) = Some (fst p)"

fun succ_list :: "(addr \<times> 'a) list \<Rightarrow> addr \<Rightarrow> ptr" where
  "succ_list [] a = None"
| "succ_list (p # xs) a = (if fst p = a then first_ptr xs else succ_list xs a)"

lemma first_ptr_append: "first_ptr (xs @ ys) = (case first_ptr xs of Some b \<Rightarrow> Some b | None \<Rightarrow> first_ptr ys)"
  by (cases xs) auto

lemma first_ptr_None [simp]: "first_ptr xs = None \<longleftrightarrow> xs = []"
  by (cases xs) auto

lemma inorder_Nil [simp]: "inorder t = [] \<longleftrightarrow> t = GLeaf"
  by (cases t) auto

lemma succ_list_append_in:
  "a \<in> fst ` set xs \<Longrightarrow>
     succ_list (xs @ ys) a = (case succ_list xs a of Some b \<Rightarrow> Some b | None \<Rightarrow> first_ptr ys)"
proof (induction xs)
  case Nil
  then show ?case by simp
next
  case (Cons p xs)
  show ?case
  proof (cases "fst p = a")
    case True
    then show ?thesis by (cases xs) auto
  next
    case False
    with Cons.prems have "a \<in> fst ` set xs" by auto
    with Cons.IH False show ?thesis by simp
  qed
qed

lemma succ_list_append_notin: "a \<notin> fst ` set xs \<Longrightarrow> succ_list (xs @ ys) a = succ_list ys a"
  by (induction xs) auto

lemma first_ptr_inorder: "first_ptr (inorder t) = root_ptr (g_findMin t)"
  by (induction t) (auto simp: first_ptr_append split: option.splits)

lemma first_ptr_rev_inorder: "first_ptr (rev (inorder t)) = root_ptr (g_findMax t)"
  by (induction t) (auto simp: first_ptr_append split: option.splits)

lemma root_ptr_None [simp]: "root_ptr t = None \<longleftrightarrow> t = GLeaf"
  by (cases t) auto

lemma g_findMax_GLeaf [simp]: "g_findMax t = GLeaf \<longleftrightarrow> t = GLeaf"
  by (induction t) auto

lemma root_parent:
  "tree_at h t \<Longrightarrow> parents_ok h par t \<Longrightarrow> t \<noteq> GLeaf \<Longrightarrow>
     \<exists>a n. root_ptr t = Some a \<and> h a = Some n \<and> parent n = par \<and> a \<in> addrs t"
  by (cases t) (auto split: option.splits)

lemma nextNode_in_subtree:
  assumes "tree_at h u" "parents_ok h par u" "a \<in> addrs u"
  shows "nextNode h (Some a) = (case succ_list (inorder u) a of Some b \<Rightarrow> ok (Some b, h)
           | None \<Rightarrow> nextNode_loop h (root_ptr u))"
  using assms
proof (induction u arbitrary: par)
  case GLeaf
  then show ?case by simp
next
  case (GNode l b kb r)
  from GNode.prems(1) obtain n where n: "h b = Some n" "left n = root_ptr l" "right n = root_ptr r"
    and tl: "tree_at h l" and tr: "tree_at h r"
    and d: "b \<notin> addrs l" "b \<notin> addrs r" "addrs l \<inter> addrs r = {}"
    by (auto split: option.splits)
  from GNode.prems(2) have pl: "parents_ok h (Some b) l" and pr: "parents_ok h (Some b) r" by auto
  consider (L) "a \<in> addrs l" | (M) "a = b" | (R) "a \<in> addrs r" using GNode.prems(3) by auto
  then show ?case
  proof cases
    case L
    then have ne: "l \<noteq> GLeaf" by auto
    from root_parent [OF tl pl ne] obtain la ln where la: "root_ptr l = Some la" "h la = Some ln"
        "parent ln = Some b" "la \<in> addrs l" by blast
    have "root_ptr r \<noteq> Some la" using la(4) d(3) by (auto dest: root_ptr_in_addrs)
    then have loop: "nextNode_loop h (root_ptr l) = ok (Some b, h)"
      by (subst nextNode_loop.simps) (simp add: la n)
    from L have s: "succ_list (inorder (GNode l b kb r)) a
        = (case succ_list (inorder l) a of Some c \<Rightarrow> Some c | None \<Rightarrow> Some b)"
      by (simp add: succ_list_append_in addrs_inorder split: option.splits)
    from GNode.IH(1) [OF tl pl L] loop show ?thesis
      unfolding s by (simp split: option.splits)
  next
    case M
    have s: "succ_list (inorder (GNode l b kb r)) a = first_ptr (inorder r)"
      using M d(1) by (simp add: succ_list_append_notin addrs_inorder)
    show ?thesis
    proof (cases "r = GLeaf")
      case True
      with n M show ?thesis unfolding s by (simp add: nextNode_def)
    next
      case False
      then obtain ra where ra: "root_ptr r = Some ra" by (cases r) auto
      from g_findMin_inorder [OF False] obtain m km mr where
        m: "g_findMin r = GNode GLeaf m km mr" by blast
      from findMin_spec [OF tr] n M ra m show ?thesis
        unfolding s by (simp add: nextNode_def first_ptr_inorder)
    qed
  next
    case R
    then have ne: "r \<noteq> GLeaf" by auto
    from root_parent [OF tr pr ne] obtain ra rn where ra: "root_ptr r = Some ra" "h ra = Some rn"
        "parent rn = Some b" "ra \<in> addrs r" by blast
    have loop: "nextNode_loop h (root_ptr r) = nextNode_loop h (Some b)"
      by (subst nextNode_loop.simps) (simp add: ra n)
    from R d have "a \<notin> addrs l" "a \<noteq> b" by auto
    then have s: "succ_list (inorder (GNode l b kb r)) a = succ_list (inorder r) a"
      by (simp add: succ_list_append_notin addrs_inorder)
    from GNode.IH(2) [OF tr pr R] loop show ?thesis
      unfolding s by (simp split: option.splits)
  qed
qed

lemma nextNode_spec:
  assumes "tree_at h t" "parents_ok h None t" "a \<in> addrs t"
  shows "nextNode h (Some a) = ok (succ_list (inorder t) a, h)"
proof -
  from assms(3) have ne: "t \<noteq> GLeaf" by auto
  from root_parent [OF assms(1,2) ne] obtain ra rn where ra: "root_ptr t = Some ra" "h ra = Some rn"
      "parent rn = None" by blast
  have "nextNode_loop h (root_ptr t) = ok (None, h)"
    by (subst nextNode_loop.simps) (simp add: ra)
  with nextNode_in_subtree [OF assms] show ?thesis by (simp split: option.splits)
qed

lemma prevNode_in_subtree:
  assumes "tree_at h u" "parents_ok h par u" "a \<in> addrs u"
  shows "prevNode h (Some a) = (case succ_list (rev (inorder u)) a of Some b \<Rightarrow> ok (Some b, h)
           | None \<Rightarrow> prevNode_loop h (root_ptr u))"
  using assms
proof (induction u arbitrary: par)
  case GLeaf
  then show ?case by simp
next
  case (GNode l b kb r)
  from GNode.prems(1) obtain n where n: "h b = Some n" "left n = root_ptr l" "right n = root_ptr r"
    and tl: "tree_at h l" and tr: "tree_at h r"
    and d: "b \<notin> addrs l" "b \<notin> addrs r" "addrs l \<inter> addrs r = {}"
    by (auto split: option.splits)
  from GNode.prems(2) have pl: "parents_ok h (Some b) l" and pr: "parents_ok h (Some b) r" by auto
  have rv: "rev (inorder (GNode l b kb r)) = rev (inorder r) @ (b, kb) # rev (inorder l)" by simp
  consider (L) "a \<in> addrs l" | (M) "a = b" | (R) "a \<in> addrs r" using GNode.prems(3) by auto
  then show ?case
  proof cases
    case R
    then have ne: "r \<noteq> GLeaf" by auto
    from root_parent [OF tr pr ne] obtain ra rn where ra: "root_ptr r = Some ra" "h ra = Some rn"
        "parent rn = Some b" "ra \<in> addrs r" by blast
    have "root_ptr l \<noteq> Some ra" using ra(4) d(3) by (auto dest: root_ptr_in_addrs)
    then have loop: "prevNode_loop h (root_ptr r) = ok (Some b, h)"
      by (subst prevNode_loop.simps) (simp add: ra n)
    from R have s: "succ_list (rev (inorder (GNode l b kb r))) a
        = (case succ_list (rev (inorder r)) a of Some c \<Rightarrow> Some c | None \<Rightarrow> Some b)"
      unfolding rv by (simp add: succ_list_append_in addrs_inorder split: option.splits)
    from GNode.IH(2) [OF tr pr R] loop show ?thesis
      unfolding s by (simp split: option.splits)
  next
    case M
    have s: "succ_list (rev (inorder (GNode l b kb r))) a = first_ptr (rev (inorder l))"
      unfolding rv using M d(2) by (simp add: succ_list_append_notin addrs_inorder)
    show ?thesis
    proof (cases "l = GLeaf")
      case True
      with n M show ?thesis unfolding s by (simp add: prevNode_def)
    next
      case False
      then obtain la where la: "root_ptr l = Some la" by (cases l) auto
      from False obtain m where "root_ptr (g_findMax l) = Some m"
        by (cases "g_findMax l") auto
      with findMax_spec [OF tl] n M la show ?thesis
        unfolding s by (simp add: prevNode_def first_ptr_rev_inorder)
    qed
  next
    case L
    then have ne: "l \<noteq> GLeaf" by auto
    from root_parent [OF tl pl ne] obtain la ln where la: "root_ptr l = Some la" "h la = Some ln"
        "parent ln = Some b" "la \<in> addrs l" by blast
    have loop: "prevNode_loop h (root_ptr l) = prevNode_loop h (Some b)"
      by (subst prevNode_loop.simps) (simp add: la n)
    from L d have "a \<notin> addrs r" "a \<noteq> b" by auto
    then have s: "succ_list (rev (inorder (GNode l b kb r))) a = succ_list (rev (inorder l)) a"
      unfolding rv by (simp add: succ_list_append_notin addrs_inorder)
    from GNode.IH(1) [OF tl pl L] loop show ?thesis
      unfolding s by (simp split: option.splits)
  qed
qed

lemma prevNode_spec:
  assumes "tree_at h t" "parents_ok h None t" "a \<in> addrs t"
  shows "prevNode h (Some a) = ok (succ_list (rev (inorder t)) a, h)"
proof -
  from assms(3) have ne: "t \<noteq> GLeaf" by auto
  from root_parent [OF assms(1,2) ne] obtain ra rn where ra: "root_ptr t = Some ra" "h ra = Some rn"
      "parent rn = None" by blast
  have "prevNode_loop h (root_ptr t) = ok (None, h)"
    by (subst prevNode_loop.simps) (simp add: ra)
  with prevNode_in_subtree [OF assms] show ?thesis by (simp split: option.splits)
qed

lemma state_nodes_same [simp]: "s\<lparr>nodes := nodes s\<rparr> = s"
  by simp

lemma forward_keys_spec:
  assumes t: "tree_at (nodes s) t" "parents_ok (nodes s) None t"
  shows "inorder t = pre @ post \<Longrightarrow>
    forward_keys s \<lparr>it_node = first_ptr post, it_parent = i\<rparr> \<lparr>it_node = None, it_parent = i\<rparr>
      = ok (map snd post, s)"
proof (induction post arbitrary: pre)
  case Nil
  show ?case by (subst forward_keys.simps) (simp add: it_eq_def)
next
  case (Cons p post)
  obtain a k where p: "p = (a, k)" by (cases p)
  from Cons.prems p have mem: "(a, k) \<in> set (inorder t)" by simp
  then have a: "a \<in> addrs t" by (force simp: addrs_inorder)
  from tree_at_node [OF t(1) mem] obtain n where n: "nodes s a = Some n" "key n = k" by blast
  from tree_at_distinct [OF t(1)] Cons.prems p have "a \<notin> fst ` set pre" by auto
  then have "succ_list (inorder t) a = first_ptr post"
    using Cons.prems p by (simp add: succ_list_append_notin)
  with nextNode_spec [OF t a] have nx: "nextNode (nodes s) (Some a) = ok (first_ptr post, nodes s)"
    by simp
  from Cons.prems have "inorder t = (pre @ [p]) @ post" by simp
  from Cons.IH [OF this] show ?case
    by (subst forward_keys.simps) (simp add: p it_eq_def it_deref_def it_incr_def n nx)
qed

lemma backward_keys_spec:
  assumes t: "tree_at (nodes s) t" "parents_ok (nodes s) None t" "root s i = root_ptr t"
  shows "inorder t = pre @ post \<Longrightarrow>
    backward_keys s \<lparr>it_node = first_ptr post, it_parent = i\<rparr>
        \<lparr>it_node = first_ptr (inorder t), it_parent = i\<rparr>
      = ok (rev (map snd pre), s)"
proof (induction pre arbitrary: post rule: rev_induct)
  case Nil
  then show ?case by (subst backward_keys.simps) (simp add: it_eq_def)
next
  case (snoc p pre)
  obtain a k where p: "p = (a, k)" by (cases p)
  from snoc.prems p have mem: "(a, k) \<in> set (inorder t)" by simp
  from tree_at_node [OF t(1) mem] obtain n where n: "nodes s a = Some n" "key n = k" by blast
  note dist = tree_at_distinct [OF t(1)]
  have ne: "first_ptr post \<noteq> first_ptr (inorder t)"
  proof (cases post)
    case Nil
    obtain c where "first_ptr (pre @ [p]) = Some c" by (cases pre) auto
    with Nil snoc.prems show ?thesis by simp
  next
    case (Cons q post')
    from snoc.prems obtain c where c: "first_ptr (inorder t) = Some c" "c \<in> fst ` set (pre @ [p])"
      by (cases pre) auto
    from dist snoc.prems Cons have "fst q \<notin> fst ` set (pre @ [p])" by auto
    with c Cons show ?thesis by auto
  qed
  have rv: "rev (inorder t) = rev post @ (a, k) # rev pre" using snoc.prems p by simp
  have dec: "it_decr s \<lparr>it_node = first_ptr post, it_parent = i\<rparr>
      = ok (\<lparr>it_node = Some a, it_parent = i\<rparr>, s)"
  proof (cases post)
    case Nil
    with findMax_spec [OF t(1)] t(3) rv show ?thesis
      by (simp add: first_ptr_rev_inorder [symmetric] it_decr_def)
  next
    case (Cons q post')
    obtain d kd where q: "q = (d, kd)" by (cases q)
    from snoc.prems Cons q have "(d, kd) \<in> set (inorder t)" by simp
    then have d: "d \<in> addrs t" by (force simp: addrs_inorder)
    from dist snoc.prems Cons q have "d \<notin> fst ` set (rev post')" by auto
    then have "succ_list (rev (inorder t)) d = Some a"
      unfolding rv Cons q by (simp add: succ_list_append_notin)
    with prevNode_spec [OF t(1,2) d] Cons q show ?thesis by (simp add: it_decr_def)
  qed
  from snoc.prems have "inorder t = pre @ (p # post)" by simp
  from snoc.IH [OF this] ne dec show ?case
    by (subst backward_keys.simps) (simp add: p it_eq_def it_deref_def n)
qed

lemma traverse_world:
  assumes w: "world_inv s f"
  shows "traverse_forward s i = ok (map snd (inorder (f i)), s)"
    "traverse_backward s i = ok (rev (map snd (inorder (f i))), s)"
proof -
  from w have t: "tree_at (nodes s) (f i)" "parents_ok (nodes s) None (f i)" "root s i = root_ptr (f i)"
    by (simp_all add: world_inv_def set_inv_def wft_def)
  from forward_keys_spec [OF t(1,2), of "[]" "inorder (f i)" i] begin_op_world [OF w, of i]
  show "traverse_forward s i = ok (map snd (inorder (f i)), s)"
    by (simp add: traverse_forward_def end_op_def first_ptr_inorder)
  from backward_keys_spec [OF t, of "inorder (f i)" "[]"] begin_op_world [OF w, of i]
  show "traverse_backward s i = ok (rev (map snd (inorder (f i))), s)"
    by (simp add: traverse_backward_def end_op_def first_ptr_inorder)
qed

section \<open>Copying and releasing trees\<close>

text \<open>A tree without its addresses: what two structurally equal trees have in common.\<close>

fun strip :: "'a gtree \<Rightarrow> 'a gtree" where
  "strip GLeaf = GLeaf"
| "strip (GNode l a k r) = GNode (strip l) 0 k (strip r)"

lemma strip_GLeaf_D: "strip t' = strip GLeaf \<Longrightarrow> t' = GLeaf"
  by (cases t') simp_all

lemma strip_GNode_D:
  "strip t' = strip (GNode l a k r) \<Longrightarrow>
     \<exists>l' a' r'. t' = GNode l' a' k r' \<and> strip l' = strip l \<and> strip r' = strip r"
  by (cases t') simp_all

lemma strip_keys: "strip t' = strip t \<Longrightarrow> keys t' = keys t"
proof (induction t arbitrary: t')
  case GLeaf
  from strip_GLeaf_D [OF GLeaf] show ?case by simp
next
  case (GNode l a k r)
  from strip_GNode_D [OF GNode.prems] obtain l' a' r' where
    t': "t' = GNode l' a' k r'" "strip l' = strip l" "strip r' = strip r" by blast
  from GNode.IH(1) [OF t'(2)] GNode.IH(2) [OF t'(3)]  show ?case
    unfolding t'(1) by simp
qed

lemma strip_ht: "strip t' = strip t \<Longrightarrow> ht t' = ht t"
proof (induction t arbitrary: t')
  case GLeaf
  from strip_GLeaf_D [OF GLeaf] show ?case by simp
next
  case (GNode l a k r)
  from strip_GNode_D [OF GNode.prems] obtain l' a' r' where
    t': "t' = GNode l' a' k r'" "strip l' = strip l" "strip r' = strip r" by blast
  from GNode.IH(1) [OF t'(2)] GNode.IH(2) [OF t'(3)]  show ?case
    unfolding t'(1) by simp
qed

lemma strip_sz: "strip t' = strip t \<Longrightarrow> sz t' = sz t"
proof (induction t arbitrary: t')
  case GLeaf
  from strip_GLeaf_D [OF GLeaf] show ?case by simp
next
  case (GNode l a k r)
  from strip_GNode_D [OF GNode.prems] obtain l' a' r' where
    t': "t' = GNode l' a' k r'" "strip l' = strip l" "strip r' = strip r" by blast
  from GNode.IH(1) [OF t'(2)] GNode.IH(2) [OF t'(3)]  show ?case
    unfolding t'(1) by simp
qed

lemma strip_avl: "strip t' = strip t \<Longrightarrow> avl t' = avl t"
proof (induction t arbitrary: t')
  case GLeaf
  from strip_GLeaf_D [OF GLeaf] show ?case by simp
next
  case (GNode l a k r)
  from strip_GNode_D [OF GNode.prems] obtain l' a' r' where
    t': "t' = GNode l' a' k r'" "strip l' = strip l" "strip r' = strip r" by blast
  from GNode.IH(1) [OF t'(2)] GNode.IH(2) [OF t'(3)] strip_ht [OF t'(2)] strip_ht [OF t'(3)] show ?case
    unfolding t'(1) by simp
qed

lemma strip_bst: "strip t' = strip t \<Longrightarrow> bst t' = bst t"
proof (induction t arbitrary: t')
  case GLeaf
  from strip_GLeaf_D [OF GLeaf] show ?case by simp
next
  case (GNode l a k r)
  from strip_GNode_D [OF GNode.prems] obtain l' a' r' where
    t': "t' = GNode l' a' k r'" "strip l' = strip l" "strip r' = strip r" by blast
  from GNode.IH(1) [OF t'(2)] GNode.IH(2) [OF t'(3)] strip_keys [OF t'(2)] strip_keys [OF t'(3)] show ?case
    unfolding t'(1) by simp
qed

lemma strip_inorder: "strip t' = strip t \<Longrightarrow> map snd (inorder t') = map snd (inorder t)"
proof (induction t arbitrary: t')
  case GLeaf
  from strip_GLeaf_D [OF GLeaf] show ?case by simp
next
  case (GNode l a k r)
  from strip_GNode_D [OF GNode.prems] obtain l' a' r' where
    t': "t' = GNode l' a' k r'" "strip l' = strip l" "strip r' = strip r" by blast
  from GNode.IH(1) [OF t'(2)] GNode.IH(2) [OF t'(3)]  show ?case
    unfolding t'(1) by simp
qed

subsection \<open>deleteTree\<close>

definition release :: "'a heap \<Rightarrow> addr set \<Rightarrow> 'a heap" where
  "release h A = (\<lambda>x. if x \<in> A then None else h x)"

lemma release_empty [simp]: "release h {} = h"
  by (simp add: release_def)

lemma tree_at_release: "tree_at h t \<Longrightarrow> addrs t \<inter> A = {} \<Longrightarrow> tree_at (release h A) t"
  by (subst tree_at_cong [of t _ h]) (auto simp: release_def)

lemma deleteTree_spec:
  "tree_at h t \<Longrightarrow> deleteTree h (root_ptr t) = ok (None, release h (addrs t))"
proof (induction t arbitrary: h)
  case GLeaf
  show ?case by (subst deleteTree.simps) simp
next
  case (GNode l a k r)
  from GNode.prems obtain n where n: "h a = Some n" "left n = root_ptr l" "right n = root_ptr r"
    and tl: "tree_at h l" and tr: "tree_at h r"
    and d: "a \<notin> addrs l" "a \<notin> addrs r" "addrs l \<inter> addrs r = {}"
    by (auto split: option.splits)
  let ?h1 = "release h (addrs l)"
  let ?h2 = "?h1(a \<mapsto> n\<lparr>left := None\<rparr>)"
  let ?h3 = "release ?h2 (addrs r)"
  let ?h4 = "?h3(a \<mapsto> n\<lparr>left := None, right := None\<rparr>)"
  have s1: "deleteTree h (root_ptr l) = ok (None, ?h1)" by (rule GNode.IH(1) [OF tl])
  have a1: "?h1 a = Some n" using n d by (simp add: release_def)
  have as1: "assign_left ?h1 (Some a) None = ok ?h2" using a1 by (simp add: assign_left_def)
  have "tree_at ?h1 r" using tr d by (intro tree_at_release) auto
  then have tr2: "tree_at ?h2 r" using d by simp
  have s2: "deleteTree ?h2 (root_ptr r) = ok (None, ?h3)" by (rule GNode.IH(2) [OF tr2])
  have a3: "?h3 a = Some (n\<lparr>left := None\<rparr>)" using d by (simp add: release_def)
  have as2: "assign_right ?h3 (Some a) None = ok ?h4" using a3 by (simp add: assign_right_def)
  have del: "delete_node ?h4 (Some a) = ok (?h4(a := None))" by (simp add: delete_node_def)
  have "?h4(a := None) = release h (addrs (GNode l a k r))"
    by (rule ext) (auto simp: release_def)
  with n s1 as1 s2 as2 del show ?case
    by (subst deleteTree.simps) simp
qed

subsection \<open>copyTree\<close>

definition free_cells :: "'a heap \<Rightarrow> addr set" where
  "free_cells h = {x. x < heap_limit \<and> h x = None}"

lemma finite_free_cells [simp]: "finite (free_cells h)"
  by (simp add: free_cells_def)

lemma first_free_free_cells: "first_free h 0 = None \<Longrightarrow> free_cells h = {}"
  using first_free_None [of h 0] by (auto simp: free_cells_def)

lemma alloc_cases:
  "(alloc h n = raise BadAlloc \<and> free_cells h = {}) \<or>
   (\<exists>x. alloc h n = ok (Some x, h(x \<mapsto> n)) \<and> h x = None \<and> x < heap_limit)"
proof (cases "first_free h 0")
  case None
  then show ?thesis by (simp add: alloc_def first_free_free_cells)
next
  case (Some x)
  with first_free_Some [OF Some] show ?thesis by (simp add: alloc_def)
qed

lemma free_cells_after:
  assumes fr: "frame A h h'" and dom: "\<forall>x \<in> A. h' x \<noteq> None" and A: "A \<subseteq> free_cells h" "finite A"
  shows "card (free_cells h') + card A = card (free_cells h)"
proof -
  have "x \<in> free_cells h' \<longleftrightarrow> x \<in> free_cells h - A" for x
  proof (cases "x \<in> A")
    case True
    with dom show ?thesis by (auto simp: free_cells_def)
  next
    case False
    with fr have "h' x = h x" by (simp add: frame_def)
    with False show ?thesis by (simp add: free_cells_def)
  qed
  then have "free_cells h' = free_cells h - A" by blast
  then show ?thesis using A by (simp add: card_Diff_subset card_mono)
qed

lemma copyTree_spec:
  assumes "tree_at h t" "cached_ok h t"
  shows "(copyTree h (root_ptr t) = raise BadAlloc \<and> card (free_cells h) < sz t) \<or>
    (\<exists>t' h'. copyTree h (root_ptr t) = ok (root_ptr t', h') \<and> wft h' t' \<and> parents_ok h' None t' \<and>
        strip t' = strip t \<and> addrs t' \<subseteq> free_cells h \<and> frame (addrs t') h h')"
  using assms
proof (induction t arbitrary: h)
  case GLeaf
  have "copyTree h None = ok (None, h)" by (subst copyTree.simps) simp
  then show ?case by (intro disjI2 exI [of _ GLeaf] exI [of _ h]) simp
next
  case (GNode l a k r)
  let ?t = "GNode l a k r"
  from GNode.prems obtain n where n: "h a = Some n" "key n = k" "left n = root_ptr l"
      "right n = root_ptr r"
    and tl: "tree_at h l" "cached_ok h l" and tr: "tree_at h r" "cached_ok h r"
    by (auto split: option.splits)
  have start: "copyTree h (Some a) =
        rbind (alloc h n) (\<lambda>(to, h1).
        rbind (deref h1 (Some a)) (\<lambda>fn1.
        rbind (copyTree h1 (left fn1)) (\<lambda>(l, h2).
        rbind (assign_left h2 to l) (\<lambda>h3.
        rbind (deref h3 (Some a)) (\<lambda>fn3.
        rbind (copyTree h3 (right fn3)) (\<lambda>(r, h4).
        rbind (assign_right h4 to r) (\<lambda>h5.
        rbind (update h5 to) (\<lambda>h6.
        ok (to, h6)))))))))"
    by (subst copyTree.simps) (simp add: n)
  from alloc_cases [of h n] show ?case
  proof (elim disjE conjE exE)
    assume "alloc h n = raise BadAlloc" "free_cells h = {}"
    then show ?thesis unfolding root_ptr.simps start by simp
  next
    fix x assume x: "alloc h n = ok (Some x, h(x \<mapsto> n))" "h x = None" "x < heap_limit"
    let ?h1 = "h(x \<mapsto> n)"
    have xa: "x \<noteq> a" using x n by auto
    have xl: "x \<notin> addrs l" "x \<notin> addrs r"
      using x tree_at_dom [OF tl(1), of x] tree_at_dom [OF tr(1), of x] by auto
    have f1: "card (free_cells ?h1) + 1 = card (free_cells h)"
      using free_cells_after [of "{x}" h ?h1] x by (simp add: frame_def free_cells_def)
    have tl1: "tree_at ?h1 l" "cached_ok ?h1 l" using tl xl by simp_all
    have st1: "copyTree h (Some a) =
        rbind (copyTree ?h1 (root_ptr l)) (\<lambda>(l, h2).
        rbind (assign_left h2 (Some x) l) (\<lambda>h3.
        rbind (deref h3 (Some a)) (\<lambda>fn3.
        rbind (copyTree h3 (right fn3)) (\<lambda>(r, h4).
        rbind (assign_right h4 (Some x) r) (\<lambda>h5.
        rbind (update h5 (Some x)) (\<lambda>h6.
        ok (Some x, h6)))))))"
      unfolding start using x(1) xa n by simp
    from GNode.IH(1) [OF tl1] show ?thesis
    proof (elim disjE conjE exE)
      assume "copyTree ?h1 (root_ptr l) = raise BadAlloc" "card (free_cells ?h1) < sz l"
      then show ?thesis unfolding root_ptr.simps st1 using f1 by simp
    next
      fix l' h2 assume l': "copyTree ?h1 (root_ptr l) = ok (root_ptr l', h2)" "wft h2 l'"
        "parents_ok h2 None l'" "strip l' = strip l" "addrs l' \<subseteq> free_cells ?h1" "frame (addrs l') ?h1 h2"
      have fl: "y \<noteq> x \<and> h y = None \<and> y < heap_limit" if "y \<in> addrs l'" for y
      proof -
        from that l'(5) have "y \<in> free_cells ?h1" by blast
        then show ?thesis by (cases "y = x") (simp_all add: free_cells_def)
      qed
      have "x \<notin> addrs l'" using fl by blast
      moreover have "a \<notin> addrs l'" using fl [of a] n by auto
      moreover have "addrs l' \<inter> addrs r = {}" using fl tree_at_dom [OF tr(1)] by fastforce
      moreover have "addrs l' \<inter> addrs l = {}" using fl tree_at_dom [OF tl(1)] by fastforce
      ultimately have dl: "x \<notin> addrs l'" "a \<notin> addrs l'" "addrs l' \<inter> addrs r = {}"
          "addrs l' \<inter> addrs l = {}" by blast+
      have x2: "h2 x = Some n" using frameD [OF l'(6) dl(1)] by simp
      have a2: "h2 a = Some n" using frameD [OF l'(6) dl(2)] xa n by simp
      let ?h3 = "h2(x \<mapsto> n\<lparr>left := root_ptr l'\<rparr>)"
      have as3: "assign_left h2 (Some x) (root_ptr l') = ok ?h3"
        using x2 by (simp add: assign_left_def)
      have a3: "?h3 a = Some n" using a2 xa by simp
      have f2: "card (free_cells h2) + sz l = card (free_cells ?h1)"
      proof -
        from l'(2) have ta: "tree_at h2 l'" by (simp add: wft_def)
        from tree_at_card [OF ta] strip_sz [OF l'(4)] have "finite (addrs l')" "card (addrs l') = sz l"
          by simp_all
        with free_cells_after [OF l'(6) _ l'(5)] wft_dom [OF l'(2)] show ?thesis by auto
      qed
      have f3: "free_cells ?h3 = free_cells h2" using x2 by (auto simp: free_cells_def)
      have tr3: "tree_at ?h3 r" "cached_ok ?h3 r"
      proof -
        have "frame (insert x (addrs l')) h ?h3" using l'(6) by (auto simp: frame_def)
        moreover have "addrs r \<inter> insert x (addrs l') = {}" using dl xl by auto
        ultimately have "\<forall>y \<in> addrs r. ?h3 y = h y" by (auto simp: frame_def)
        then show "tree_at ?h3 r" "cached_ok ?h3 r"
          using tr tree_at_cong [of r ?h3 h] cached_ok_cong [of r ?h3 h] by auto
      qed
      have st3: "copyTree h (Some a) =
        rbind (copyTree ?h3 (root_ptr r)) (\<lambda>(r, h4).
        rbind (assign_right h4 (Some x) r) (\<lambda>h5.
        rbind (update h5 (Some x)) (\<lambda>h6.
        ok (Some x, h6))))"
        unfolding st1 using l'(1) as3 a3 n by simp
      from GNode.IH(2) [OF tr3] show ?thesis
      proof (elim disjE conjE exE)
        assume "copyTree ?h3 (root_ptr r) = raise BadAlloc" "card (free_cells ?h3) < sz r"
        then show ?thesis unfolding root_ptr.simps st3 using f1 f2 f3 by simp
      next
        fix r' h4 assume r': "copyTree ?h3 (root_ptr r) = ok (root_ptr r', h4)" "wft h4 r'"
          "parents_ok h4 None r'" "strip r' = strip r" "addrs r' \<subseteq> free_cells ?h3" "frame (addrs r') ?h3 h4"
        have fr': "y \<noteq> x \<and> h2 y = None \<and> y < heap_limit" if "y \<in> addrs r'" for y
        proof -
          from that r'(5) have "y \<in> free_cells ?h3" by blast
          then show ?thesis by (cases "y = x") (simp_all add: free_cells_def)
        qed
        have "x \<notin> addrs r'" using fr' by blast
        moreover have "addrs l' \<inter> addrs r' = {}" using fr' wft_dom [OF l'(2)] by fastforce
        ultimately have dr: "x \<notin> addrs r'" "addrs l' \<inter> addrs r' = {}" by blast+
        have x4: "h4 x = Some (n\<lparr>left := root_ptr l'\<rparr>)" using frameD [OF r'(6) dr(1)] by simp
        let ?n5 = "n\<lparr>left := root_ptr l', right := root_ptr r'\<rparr>"
        let ?h5 = "h4(x \<mapsto> ?n5)"
        have as5: "assign_right h4 (Some x) (root_ptr r') = ok ?h5"
          using x4 by (simp add: assign_right_def)
        have wl5: "wft ?h5 l'"
        proof -
          have "frame (insert x (addrs r')) h2 ?h5" using r'(6) by (auto simp: frame_def)
          moreover have "addrs l' \<inter> insert x (addrs r') = {}" using dl dr by auto
          ultimately show ?thesis using wft_frame [of _ h2 ?h5 l'] l'(2) by simp
        qed
        have wr5: "wft ?h5 r'" using r'(2) dr by simp
        have "\<exists>h6. update ?h5 (Some x) = ok h6 \<and> wft h6 (GNode l' x k r') \<and>
           parents_ok h6 None (GNode l' x k r') \<and> frame (insert x (addrs l' \<union> addrs r')) ?h5 h6"
          by (rule update_spec [where n = ?n5]) (use n wl5 wr5 dl dr x in auto)
        then obtain h6 where h6: "update ?h5 (Some x) = ok h6" "wft h6 (GNode l' x k r')"
            "parents_ok h6 None (GNode l' x k r')" "frame (insert x (addrs l' \<union> addrs r')) ?h5 h6"
          by blast
        have res: "copyTree h (Some a) = ok (Some x, h6)"
          unfolding st3 using r'(1) as5 h6(1) by simp
        have "h y = None" if "y \<in> addrs r'" for y
        proof -
          from fr' [OF that] dr that have "y \<notin> addrs l'" "h2 y = None" "y \<noteq> x" by auto
          with frameD [OF l'(6), of y] show ?thesis by simp
        qed
        with fl fr' x have fresh: "addrs (GNode l' x k r') \<subseteq> free_cells h"
          by (auto simp: free_cells_def)
        have fr: "frame (addrs (GNode l' x k r')) h h6"
          using l'(6) r'(6) h6(4) unfolding frame_def by auto
        show ?thesis
          using res h6 l'(4) r'(4) fresh fr
          by (intro disjI2 exI [of _ "GNode l' x k r'"] exI [of _ h6]) simp
      qed
    qed
  qed
qed

subsection \<open>copies between sets\<close>

lemma frame_release: "frame A h (release h A)"
  by (simp add: frame_def release_def)

lemma free_cells_release:
  assumes "A \<subseteq> {..<heap_limit}" "\<forall>x \<in> A. h x \<noteq> None" "finite A"
  shows "card (free_cells (release h A)) = card (free_cells h) + card A"
proof -
  have "free_cells (release h A) = free_cells h \<union> A"
    using assms(1) by (auto simp: free_cells_def release_def)
  moreover have "free_cells h \<inter> A = {}" using assms(2) by (auto simp: free_cells_def)
  ultimately show ?thesis using assms(3) by (simp add: card_Un_disjoint)
qed

lemma world_inv_others:
  assumes w: "world_inv s f" and fr: "frame A (nodes s) h'"
    and d: "\<forall>k. k \<noteq> i \<longrightarrow> addrs (f k) \<inter> A = {}"
    and i: "wft h' t'" "parents_ok h' None t'" "avl t'" "bst t'"
    and n: "\<forall>k. k \<noteq> i \<longrightarrow> addrs (f k) \<inter> addrs t' = {}"
  shows "world_inv (set_root s i (root_ptr t', h')) (f(i := t'))"
  unfolding world_inv_def
proof (intro conjI allI impI)
  fix k
  show "set_inv (set_root s i (root_ptr t', h')) k ((f(i := t')) k)"
  proof (cases "k = i")
    case True
    with i show ?thesis by (simp add: set_inv_def set_root_def)
  next
    case False
    from w have "set_inv s k (f k)" by (simp add: world_inv_def)
    then have "wft (nodes s) (f k)" "parents_ok (nodes s) None (f k)" "root s k = root_ptr (f k)"
      "avl (f k)" "bst (f k)" by (simp_all add: set_inv_def)
    moreover from d False have dk: "addrs (f k) \<inter> A = {}" by simp
    ultimately show ?thesis
      using wft_frame [OF fr dk] parents_ok_frame [OF fr dk] False
      by (simp add: set_inv_def set_root_def)
  qed
next
  fix k k' :: sid assume "k \<noteq> k'"
  then show "addrs ((f(i := t')) k) \<inter> addrs ((f(i := t')) k') = {}"
    using n w unfolding world_inv_def
    by (cases "k = i"; cases "k' = i") (simp_all, blast+)
qed

lemma delete_world:
  assumes w: "world_inv s f"
  shows "deleteTree (nodes s) (root s i) = ok (None, release (nodes s) (addrs (f i)))"
    "world_inv (set_root s i (None, release (nodes s) (addrs (f i)))) (f(i := GLeaf))"
proof -
  from world_inv_tree [OF w, of i] have t: "root s i = root_ptr (f i)" "tree_at (nodes s) (f i)"
    by simp_all
  from deleteTree_spec [OF t(2)] t(1)
  show "deleteTree (nodes s) (root s i) = ok (None, release (nodes s) (addrs (f i)))" by simp
  have d: "\<forall>k. k \<noteq> i \<longrightarrow> addrs (f k) \<inter> addrs (f i) = {}"
    using w by (auto simp: world_inv_def)
  from world_inv_others [OF w frame_release d, of GLeaf]
  show "world_inv (set_root s i (None, release (nodes s) (addrs (f i)))) (f(i := GLeaf))"
    by simp
qed

lemma copy_construct_world:
  assumes w: "world_inv s f" and e: "f i = GLeaf"
  shows "(copy_construct s i j = raise BadAlloc \<and> card (free_cells (nodes s)) < sz (f j)) \<or>
    (\<exists>s' t'. copy_construct s i j = ok s' \<and> world_inv s' (f(i := t')) \<and> strip t' = strip (f j) \<and>
        addrs t' \<subseteq> free_cells (nodes s) \<and> frame (addrs t') (nodes s) (nodes s'))"
proof -
  from w have j: "root s j = root_ptr (f j)" "wft (nodes s) (f j)" "avl (f j)" "bst (f j)"
    by (simp_all add: world_inv_def set_inv_def)
  then have tj: "tree_at (nodes s) (f j)" "cached_ok (nodes s) (f j)" by (simp_all add: wft_def)
  from copyTree_spec [OF tj] show ?thesis
  proof (elim disjE conjE exE)
    assume "copyTree (nodes s) (root_ptr (f j)) = raise BadAlloc" "card (free_cells (nodes s)) < sz (f j)"
    with j(1) show ?thesis by (simp add: copy_construct_def)
  next
    fix t' h' assume c: "copyTree (nodes s) (root_ptr (f j)) = ok (root_ptr t', h')" "wft h' t'"
      "parents_ok h' None t'" "strip t' = strip (f j)" "addrs t' \<subseteq> free_cells (nodes s)"
      "frame (addrs t') (nodes s) h'"
    have d: "addrs (f k) \<inter> addrs t' = {}" for k
    proof -
      from w have "wft (nodes s) (f k)" by (simp add: world_inv_def set_inv_def)
      with c(5) wft_dom [of "nodes s" "f k"] show ?thesis by (fastforce simp: free_cells_def)
    qed
    have "world_inv (set_root s i (root_ptr t', h')) (f(i := t'))"
      by (rule world_inv_others [OF w c(6) _ c(2,3)])
        (use d strip_avl [OF c(4)] strip_bst [OF c(4)] j in auto)
    moreover have "copy_construct s i j = ok (set_root s i (root_ptr t', h'))"
      using c(1) j(1) by (simp add: copy_construct_def)
    moreover have "nodes (set_root s i (root_ptr t', h')) = h'" by (simp add: set_root_def)
    ultimately show ?thesis using c(4,5,6) by auto
  qed
qed

lemma copy_assign_eq:
  "i \<noteq> j \<Longrightarrow> copy_assign s i j =
     rbind (deleteTree (nodes s) (root s i)) (\<lambda>rh. copy_construct (set_root s i rh) i j)"
  by (simp add: copy_assign_def copy_construct_def Let_def)

lemma copy_assign_world:
  assumes w: "world_inv s f" and ij: "i \<noteq> j"
  shows "(copy_assign s i j = raise BadAlloc \<and> card (free_cells (nodes s)) + sz (f i) < sz (f j)) \<or>
    (\<exists>s' t'. copy_assign s i j = ok s' \<and> world_inv s' (f(i := t')) \<and> strip t' = strip (f j) \<and>
        addrs t' \<inter> addrs (f j) = {} \<and>
        frame (addrs (f i) \<union> addrs t') (nodes s) (nodes s'))"
proof -
  let ?h1 = "release (nodes s) (addrs (f i))"
  let ?s1 = "set_root s i (None, ?h1)"
  note d = delete_world [OF w, of i]
  have eq: "copy_assign s i j = copy_construct ?s1 i j"
    using d(1) by (simp add: copy_assign_eq [OF ij])
  have n1: "nodes ?s1 = ?h1" by (simp add: set_root_def)
  from world_inv_tree [OF w, of i] have ti: "tree_at (nodes s) (f i)" by simp
  have fc: "card (free_cells ?h1) = card (free_cells (nodes s)) + sz (f i)"
    using free_cells_release [of "addrs (f i)" "nodes s"] tree_at_card [OF ti] tree_at_dom [OF ti]
    by auto
  have "(f(i := GLeaf)) i = GLeaf" by simp
  from copy_construct_world [OF d(2) this, of j] show ?thesis
  proof (elim disjE conjE exE)
    assume "copy_construct ?s1 i j = raise BadAlloc" "card (free_cells (nodes ?s1)) < sz ((f(i := GLeaf)) j)"
    with eq fc n1 ij show ?thesis by simp
  next
    fix s' t' assume c: "copy_construct ?s1 i j = ok s'" "world_inv s' ((f(i := GLeaf))(i := t'))"
      "strip t' = strip ((f(i := GLeaf)) j)" "addrs t' \<subseteq> free_cells (nodes ?s1)"
      "frame (addrs t') (nodes ?s1) (nodes s')"
    from c(2) have w': "world_inv s' (f(i := t'))" by simp
    from w' ij have "addrs t' \<inter> addrs (f j) = {}"
      unfolding world_inv_def by (metis fun_upd_other fun_upd_same)
    moreover have "frame (addrs (f i) \<union> addrs t') (nodes s) (nodes s')"
      using c(5) frame_release [of "addrs (f i)" "nodes s"] unfolding n1 frame_def by auto
    ultimately show ?thesis using eq c(1,3) w' ij by auto
  qed
qed

subsection \<open>A copy and its source\<close>

text \<open>
  \<open>untouched s s' j t\<close>: going from \<open>s\<close> to \<open>s'\<close>, the root field of set \<open>j\<close> and every
  node of its tree \<open>t\<close> stayed as they were.
\<close>

definition untouched :: "'a state \<Rightarrow> 'a state \<Rightarrow> sid \<Rightarrow> 'a gtree \<Rightarrow> bool" where
  "untouched s s' j t = (root s' j = root s j \<and> (\<forall>x \<in> addrs t. nodes s' x = nodes s x))"

text \<open>
  \<open>deep_copy s s' b a\<close>: in \<open>s'\<close>, reached from \<open>s\<close>, set \<open>b\<close> is a copy of set \<open>a\<close>.
  The tree \<open>ta\<close> of \<open>a\<close> is the one it had in \<open>s\<close>, node for node; the tree \<open>tb\<close> of
  \<open>b\<close> has the same shape and keys and shares no node with it; erasing from one of the two
  sets, or inserting into it, returns a state in which the other set still has its tree, node
  for node, and in which \<^verbatim>\<open>find\<close> on the other set returns the cursor it returned before.
\<close>

definition deep_copy :: "'a::linorder state \<Rightarrow> 'a state \<Rightarrow> sid \<Rightarrow> sid \<Rightarrow> bool" where
  "deep_copy s s' b a = (\<exists>ta tb.
      root s a = root_ptr ta \<and> tree_at (nodes s) ta \<and>
      tree_at (nodes s') ta \<and> untouched s s' a ta \<and>
      root s' b = root_ptr tb \<and> tree_at (nodes s') tb \<and>
      strip tb = strip ta \<and> keys tb = keys ta \<and> addrs ta \<inter> addrs tb = {} \<and>
      (\<forall>k. \<exists>s''. erase_op s' b k = ok s'' \<and> tree_at (nodes s'') ta \<and> untouched s' s'' a ta \<and>
           (\<forall>k2. \<exists>it. find_op s' a k2 = ok (it, s') \<and> find_op s'' a k2 = ok (it, s''))) \<and>
      (\<forall>k. \<exists>s''. erase_op s' a k = ok s'' \<and> tree_at (nodes s'') tb \<and> untouched s' s'' b tb \<and>
           (\<forall>k2. \<exists>it. find_op s' b k2 = ok (it, s') \<and> find_op s'' b k2 = ok (it, s''))) \<and>
      (\<forall>k s''. insert_op s' b k = ok s'' \<longrightarrow> tree_at (nodes s'') ta \<and> untouched s' s'' a ta) \<and>
      (\<forall>k s''. insert_op s' a k = ok s'' \<longrightarrow> tree_at (nodes s'') tb \<and> untouched s' s'' b tb))"

text \<open>
  \<open>no_room s b a\<close>: the free cells of the heap together with the nodes of set \<open>b\<close> are fewer
  than the nodes of set \<open>a\<close>, so that a copy of \<open>a\<close> into \<open>b\<close> cannot be allocated.
\<close>

definition no_room :: "'a state \<Rightarrow> sid \<Rightarrow> sid \<Rightarrow> bool" where
  "no_room s b a = (\<exists>ta tb. root s a = root_ptr ta \<and> tree_at (nodes s) ta \<and>
      root s b = root_ptr tb \<and> tree_at (nodes s) tb \<and>
      card (free_cells (nodes s)) + sz tb < sz ta)"

lemma no_roomI:
  assumes w: "world_inv s f" and c: "card (free_cells (nodes s)) + sz (f b) < sz (f a)"
  shows "no_room s b a"
  unfolding no_room_def using world_inv_tree [OF w, of a] world_inv_tree [OF w, of b] c
  by (intro exI [of _ "f a"] exI [of _ "f b"]) simp

lemma world_untouched:
  assumes w: "world_inv s f" and w': "world_inv s' f'" and j: "f' j = f j"
    and fr: "frame A (nodes s) (nodes s')" and d: "addrs (f j) \<inter> A = {}"
  shows "untouched s s' j (f j)" "tree_at (nodes s') (f j)"
    "find_op s j k = ok (\<lparr>it_node = g_find k (f j), it_parent = j\<rparr>, s)"
    "find_op s' j k = ok (\<lparr>it_node = g_find k (f j), it_parent = j\<rparr>, s')"
proof -
  from world_inv_tree [OF w, of j] world_inv_tree [OF w', of j] j
  have r: "root s' j = root s j" and t: "tree_at (nodes s') (f j)" by simp_all
  from fr d have "\<forall>x \<in> addrs (f j). nodes s' x = nodes s x" by (auto simp: frame_def)
  with r show "untouched s s' j (f j)" by (simp add: untouched_def)
  from t show "tree_at (nodes s') (f j)" .
  from find_op_world [OF w, of j k]
  show "find_op s j k = ok (\<lparr>it_node = g_find k (f j), it_parent = j\<rparr>, s)" .
  from find_op_world [OF w', of j k] j
  show "find_op s' j k = ok (\<lparr>it_node = g_find k (f j), it_parent = j\<rparr>, s')" by simp
qed

lemma erase_untouched:
  assumes w: "world_inv s f" and ij: "i \<noteq> j"
  shows "\<exists>s'. erase_op s i k = ok s' \<and> tree_at (nodes s') (f j) \<and> untouched s s' j (f j) \<and>
     (\<forall>k2. \<exists>it. find_op s j k2 = ok (it, s) \<and> find_op s' j k2 = ok (it, s'))"
proof -
  from erase_world [OF w, of i k] obtain s' where s': "erase_op s i k = ok s'"
      "world_inv s' (f(i := g_erase k (f i)))" "frame (addrs (f i)) (nodes s) (nodes s')" by blast
  have j: "(f(i := g_erase k (f i))) j = f j" using ij by simp
  have d: "addrs (f j) \<inter> addrs (f i) = {}" using w ij by (auto simp: world_inv_def)
  note u = world_untouched [OF w s'(2) j s'(3) d]
  from s'(1) u(1,2) u(3,4) show ?thesis by blast
qed

lemma insert_untouched:
  assumes w: "world_inv s f" and ij: "i \<noteq> j" and op: "insert_op s i k = ok s'"
  shows "tree_at (nodes s') (f j) \<and> untouched s s' j (f j)"
proof (cases "k \<in> keys (f i) \<or> (\<exists>x. first_free (nodes s) 0 = Some x)")
  case True
  then obtain x where x: "k \<in> keys (f i) \<or> first_free (nodes s) 0 = Some x" by auto
  from insert_world [OF w x] op have s': "world_inv s' (f(i := g_insert x k (f i)))"
      "frame (addrs (g_insert x k (f i))) (nodes s) (nodes s')" by auto
  have j: "(f(i := g_insert x k (f i))) j = f j" using ij by simp
  from s'(1) ij have d: "addrs (f j) \<inter> addrs (g_insert x k (f i)) = {}"
    unfolding world_inv_def by (metis fun_upd_other fun_upd_same)
  from world_untouched(1,2) [OF w s'(1) j s'(2) d] show ?thesis by simp
next
  case False
  then have "k \<notin> keys (f i)" "first_free (nodes s) 0 = None" by auto
  from insert_fail [OF w this] op show ?thesis by simp
qed

lemma deep_copyI:
  assumes w: "world_inv s f" and w': "world_inv s' (f(i := t'))" and ij: "i \<noteq> j"
    and st: "strip t' = strip (f j)"
    and fr: "frame A (nodes s) (nodes s')" and d: "addrs (f j) \<inter> A = {}"
  shows "deep_copy s s' i j"
proof -
  let ?f' = "f(i := t')"
  have j: "?f' j = f j" using ij by simp
  have i: "?f' i = t'" by simp
  note u = world_untouched(1,2) [OF w w' j fr d]
  from w' ij have dis: "addrs (f j) \<inter> addrs t' = {}"
    unfolding world_inv_def by (metis fun_upd_other fun_upd_same)
  have e1: "\<exists>s''. erase_op s' i k = ok s'' \<and> tree_at (nodes s'') (f j) \<and> untouched s' s'' j (f j) \<and>
     (\<forall>k2. \<exists>it. find_op s' j k2 = ok (it, s') \<and> find_op s'' j k2 = ok (it, s''))" for k
    using erase_untouched [OF w' ij, of k] j by simp
  have e2: "\<exists>s''. erase_op s' j k = ok s'' \<and> tree_at (nodes s'') t' \<and> untouched s' s'' i t' \<and>
     (\<forall>k2. \<exists>it. find_op s' i k2 = ok (it, s') \<and> find_op s'' i k2 = ok (it, s''))" for k
    using erase_untouched [OF w' ij [symmetric], of k] i by simp
  have i1: "tree_at (nodes s'') (f j) \<and> untouched s' s'' j (f j)" if "insert_op s' i k = ok s''" for k s''
    using insert_untouched [OF w' ij that] j by simp
  have i2: "tree_at (nodes s'') t' \<and> untouched s' s'' i t'" if "insert_op s' j k = ok s''" for k s''
    using insert_untouched [OF w' ij [symmetric] that] i by simp
  show ?thesis
    unfolding deep_copy_def
    using world_inv_tree [OF w, of j] world_inv_tree [OF w', of i] u st strip_keys [OF st] dis
      e1 e2 i1 i2
    by (intro exI [of _ "f j"] exI [of _ t']) simp
qed


section \<open>Reachable states\<close>

text \<open>
  The states a program can reach from the state with no nodes, in which every set is empty,
  by calls of the public mutating operations that return normally. A copy constructor builds
  an object that held no tree before; the range and list constructors are sequences of
  \<^verbatim>\<open>insert\<close>.
\<close>

inductive reachable :: "'a::linorder state \<Rightarrow> bool" where
  init: "reachable init_state"
| insert: "reachable s \<Longrightarrow> insert_op s i v = ok s' \<Longrightarrow> reachable s'"
| erase: "reachable s \<Longrightarrow> erase_op s i v = ok s' \<Longrightarrow> reachable s'"
| copy_construct: "reachable s \<Longrightarrow> root s i = None \<Longrightarrow> copy_construct s i j = ok s' \<Longrightarrow> reachable s'"
| copy_assign: "reachable s \<Longrightarrow> copy_assign s i j = ok s' \<Longrightarrow> reachable s'"

lemma reachable_world_inv: "reachable s \<Longrightarrow> \<exists>f. world_inv s f"
proof (induction rule: reachable.induct)
  case init
  then show ?case using world_inv_init by blast
next
  case (insert s i v s')
  then obtain f where f: "world_inv s f" by blast
  from insert_op_cases [OF f, of i v] insert.hyps(2) show ?case by auto
next
  case (erase s i v s')
  then obtain f where f: "world_inv s f" by blast
  from erase_world [OF f, of i v] erase.hyps(2) show ?case by auto
next
  case (copy_construct s i j s')
  then obtain f where f: "world_inv s f" by blast
  from world_inv_tree [OF f, of i] copy_construct.hyps(2) have "f i = GLeaf"
    by (cases "f i") simp_all
  from copy_construct_world [OF f this, of j] copy_construct.hyps(3) show ?case by auto
next
  case (copy_assign s i j s')
  then obtain f where f: "world_inv s f" by blast
  show ?case
  proof (cases "i = j")
    case True
    with copy_assign.hyps(2) f show ?thesis by (auto simp: copy_assign_def)
  next
    case False
    from copy_assign_world [OF f False] copy_assign.hyps(2) show ?thesis by auto
  qed
qed

section \<open>A concrete run\<close>

text \<open>A concrete run: 10, 20 and 30 inserted into set 0, which takes one left rotation.\<close>

definition nd :: "nat \<Rightarrow> nat \<Rightarrow> nat \<Rightarrow> ptr \<Rightarrow> ptr \<Rightarrow> ptr \<Rightarrow> nat TreeNode" where
  "nd k hh c l r p = \<lparr>key = k, height = of_nat hh, cnt = of_nat c, left = l, right = r, parent = p\<rparr>"

definition ex1 :: "nat state" where
  "ex1 = \<lparr>nodes = [0 \<mapsto> nd 10 1 1 None None None], root = (\<lambda>i. None)(0 := Some 0)\<rparr>"

definition ex2 :: "nat state" where
  "ex2 = \<lparr>nodes = [0 \<mapsto> nd 10 2 2 None (Some (Suc 0)) None, Suc 0 \<mapsto> nd 20 1 1 None None (Some 0)],
           root = (\<lambda>i. None)(0 := Some 0)\<rparr>"

definition ex3 :: "nat state" where
  "ex3 = \<lparr>nodes = [0 \<mapsto> nd 10 1 1 None None (Some (Suc 0)),
                    Suc 0 \<mapsto> nd 20 2 3 (Some 0) (Some (Suc (Suc 0))) None,
                    Suc (Suc 0) \<mapsto> nd 30 1 1 None None (Some (Suc 0))],
           root = (\<lambda>i. None)(0 := Some (Suc 0))\<rparr>"

lemmas eval_defs = insert_op_def init_state_def new_TreeNode_def alloc_def first_free.simps heap_limit_def
      set_root_def nd_def balance_def update_def getBalance_def height_of_def cnt_of_def deref_def
      set_child_parent_def assign_parent_def assign_left_def assign_right_def rotateLeft_def rotateRight_def
      isKeyEqual_def fun_eq_iff Let_def

lemma ins1: "insert_op init_state 0 10 = ok ex1"
  by (simp add: ex1_def AVLInsert.simps eval_defs)

lemma ins2: "insert_op ex1 0 20 = ok ex2"
  by (simp add: ex1_def ex2_def AVLInsert.simps eval_defs)

lemma ins3: "insert_op ex2 0 30 = ok ex3"
  by (simp add: ex2_def ex3_def AVLInsert.simps eval_defs)

lemma ex3_reachable: "reachable ex3"
  by (rule reachable.insert [OF reachable.insert [OF reachable.insert [OF reachable.init ins1] ins2] ins3])

definition ex3_tree :: "nat gtree" where
  "ex3_tree = GNode (GNode GLeaf 0 10 GLeaf) (Suc 0) 20 (GNode GLeaf (Suc (Suc 0)) 30 GLeaf)"

lemma ex3_tree_at: "root ex3 0 = root_ptr ex3_tree" "tree_at (nodes ex3) ex3_tree"
  by (simp_all add: ex3_def ex3_tree_def nd_def heap_limit_def)

lemma ex3_tree_unique: "root ex3 0 = root_ptr t \<Longrightarrow> tree_at (nodes ex3) t \<Longrightarrow> t = ex3_tree"
  using ex3_tree_at by (auto intro: tree_at_unique)

lemma ex3_first_free: "first_free (nodes ex3) 0 = Some (Suc (Suc (Suc 0)))"
  by (simp add: ex3_def first_free.simps heap_limit_def)

definition exL1 :: "nat state" where
  "exL1 = \<lparr>nodes = [0 \<mapsto> nd 20 1 1 None None None], root = (\<lambda>i. None)(0 := Some 0)\<rparr>"

definition exL :: "nat state" where
  "exL = \<lparr>nodes = [0 \<mapsto> nd 20 2 2 (Some (Suc 0)) None None, Suc 0 \<mapsto> nd 10 1 1 None None (Some 0)],
           root = (\<lambda>i. None)(0 := Some 0)\<rparr>"

definition exL_tree :: "nat gtree" where
  "exL_tree = GNode (GNode GLeaf (Suc 0) 10 GLeaf) 0 20 GLeaf"

lemma insL1: "insert_op init_state 0 20 = ok exL1"
  by (simp add: exL1_def AVLInsert.simps eval_defs)

lemma insL2: "insert_op exL1 0 10 = ok exL"
  by (simp add: exL1_def exL_def AVLInsert.simps eval_defs ucast_minus_1)

lemma exL_reachable: "reachable exL"
  by (rule reachable.insert [OF reachable.insert [OF reachable.init insL1] insL2])

lemma exL_tree_unique: "root exL 0 = root_ptr t \<Longrightarrow> tree_at (nodes exL) t \<Longrightarrow> t = exL_tree"
proof (rule tree_at_unique)
  show "tree_at (nodes exL) exL_tree" by (simp add: exL_def exL_tree_def nd_def heap_limit_def)
  show "root exL 0 = root_ptr t \<Longrightarrow> root_ptr t = root_ptr exL_tree"
    by (simp add: exL_def exL_tree_def)
qed

lemma ex3_find: "find_op ex3 0 20 = ok (\<lparr>it_node = Some (Suc 0), it_parent = 0\<rparr>, ex3\<lparr>nodes := nodes ex3\<rparr>)"
  by (simp add: find_op_def ex3_def AVLFind.simps nd_def isKeyEqual_def)

lemma ex3_incr:
  "it_incr ex3 \<lparr>it_node = Some 0, it_parent = 0\<rparr>
     = ok (\<lparr>it_node = Some (Suc 0), it_parent = 0\<rparr>, ex3\<lparr>nodes := nodes ex3\<rparr>)"
  by (simp add: it_incr_def nextNode_def ex3_def nextNode_loop.simps nd_def)

definition ex3c :: "nat state" where
  "ex3c = \<lparr>nodes = [0 \<mapsto> nd 10 1 1 None None (Some (Suc 0)),
                    Suc 0 \<mapsto> nd 20 2 3 (Some 0) (Some (Suc (Suc 0))) None,
                    Suc (Suc 0) \<mapsto> nd 30 1 1 None None (Some (Suc 0)),
                    Suc (Suc (Suc 0)) \<mapsto> nd 20 2 3 (Some (Suc (Suc (Suc (Suc 0)))))
                         (Some (Suc (Suc (Suc (Suc (Suc 0)))))) None,
                    Suc (Suc (Suc (Suc 0))) \<mapsto> nd 10 1 1 None None (Some (Suc (Suc (Suc 0)))),
                    Suc (Suc (Suc (Suc (Suc 0)))) \<mapsto> nd 30 1 1 None None (Some (Suc (Suc (Suc 0))))],
           root = (\<lambda>i. None)(0 := Some (Suc 0), Suc 0 := Some (Suc (Suc (Suc 0))))\<rparr>"

lemma ex3_copyTree:
  "copyTree (nodes ex3) (Some (Suc 0)) = ok (Some (Suc (Suc (Suc 0))), nodes ex3c)"
  by (simp add: ex3_def ex3c_def copyTree.simps eval_defs)

lemma ex3_copy_construct: "copy_construct ex3 (Suc 0) 0 = ok ex3c"
  using ex3_copyTree by (simp add: copy_construct_def set_root_def ex3_def ex3c_def fun_eq_iff)

lemma ex3_copy_assign: "copy_assign ex3 (Suc 0) 0 = ok ex3c"
  using ex3_copyTree
  by (simp add: copy_assign_def deleteTree.simps set_root_def ex3_def ex3c_def fun_eq_iff Let_def)


section \<open>The claims\<close>

text \<open>
  C1. After every sequence of insert and erase operations on initially empty sets, the tree of
  every set is a binary search tree (at every node the keys of the left subtree are less than
  the node's key and those of the right subtree greater), it is AVL-balanced (the heights of
  the two subtrees of every node differ by at most 1), and every parent pointer is the
  structural parent, the root's being null. \<open>tree_at\<close> says that the nodes reachable
  from the root field form the tree \<open>t\<close>.
\<close>

theorem C1_tree_invariants:
  "reachable s \<Longrightarrow>
     \<exists>t. root s i = root_ptr t \<and> tree_at (nodes s) t \<and> bst t \<and> avl t \<and> parents_ok (nodes s) None t"
proof -
  assume "reachable s"
  then obtain f where "world_inv s f" by (auto dest: reachable_world_inv)
  then have "set_inv s i (f i)" by (simp add: world_inv_def)
  then show ?thesis unfolding set_inv_def wft_def by blast
qed

theorem C1_tree_invariants_witness:
  "reachable ex3 \<and>
     (\<exists>t. root ex3 0 = root_ptr t \<and> tree_at (nodes ex3) t \<and> bst t \<and> avl t \<and> parents_ok (nodes ex3) None t)"
  using C1_tree_invariants [OF ex3_reachable, of 0] ex3_reachable by simp

text \<open>
  C2. Inserting a key that the set already holds changes nothing at all: the state after the
  call is the state before it, so the size is the same too. Inserting a key that the set does
  not hold either fails with \<^verbatim>\<open>bad_alloc\<close> (only when no address is free) or returns a
  state whose tree holds exactly the old keys and the new one, with \<^verbatim>\<open>size()\<close> larger
  by exactly 1. A second insert of the same key is a no-op.
\<close>

theorem C2_insert:
  assumes "reachable s"
  shows "\<exists>t. root s i = root_ptr t \<and> tree_at (nodes s) t \<and>
     (v \<in> keys t \<longrightarrow> insert_op s i v = ok s) \<and>
     (v \<notin> keys t \<longrightarrow>
        (first_free (nodes s) 0 = None \<and> insert_op s i v = raise BadAlloc) \<or>
        (\<exists>s' t' c c'. insert_op s i v = ok s' \<and> root s' i = root_ptr t' \<and> tree_at (nodes s') t' \<and>
            keys t' = insert v (keys t) \<and>
            size_op s i = ok (c, s) \<and> size_op s' i = ok (c', s') \<and> unat c' = unat c + 1)) \<and>
     (\<forall>s'. insert_op s i v = ok s' \<longrightarrow> insert_op s' i v = ok s')"
proof -
  from assms obtain f where w: "world_inv s f" by (auto dest: reachable_world_inv)
  let ?t = "f i"
  note t = world_inv_tree [OF w, of i]
  have present: "v \<in> keys ?t \<longrightarrow> insert_op s i v = ok s"
    using insert_present [OF w] by blast
  have absent: "(first_free (nodes s) 0 = None \<and> insert_op s i v = raise BadAlloc) \<or>
        (\<exists>s' t' c c'. insert_op s i v = ok s' \<and> root s' i = root_ptr t' \<and> tree_at (nodes s') t' \<and>
            keys t' = insert v (keys ?t) \<and>
            size_op s i = ok (c, s) \<and> size_op s' i = ok (c', s') \<and> unat c' = unat c + 1)"
    if nk: "v \<notin> keys ?t"
  proof (cases "first_free (nodes s) 0")
    case None
    with insert_fail [OF w nk] show ?thesis by simp
  next
    case (Some x)
    from insert_world [OF w, of v i x] Some obtain s' where s': "insert_op s i v = ok s'"
        "world_inv s' (f(i := g_insert x v ?t))" by blast
    let ?t' = "g_insert x v ?t"
    from world_inv_tree [OF s'(2), of i] have t': "root s' i = root_ptr ?t'" "tree_at (nodes s') ?t'"
      by simp_all
    from size_op_world [OF w, of i] size_op_world [OF s'(2), of i] inorder_g_insert_absent [OF nk, of x]
    have "size_op s i = ok (of_nat (sz ?t), s)" "size_op s' i = ok (of_nat (sz ?t'), s')"
      "unat (of_nat (sz ?t') :: 64 word) = unat (of_nat (sz ?t) :: 64 word) + 1"
      by simp_all
    with s'(1) t' show ?thesis by (intro disjI2 exI [of _ s'] exI [of _ ?t']) auto
  qed
  have again: "insert_op s' i v = ok s'" if s': "insert_op s i v = ok s'" for s'
  proof -
    from insert_op_cases [OF w, of i v] s' obtain x where x: "world_inv s' (f(i := g_insert x v ?t))"
      by auto
    have "v \<in> keys ((f(i := g_insert x v ?t)) i)" by simp
    from insert_present [OF x this] show ?thesis .
  qed
  from t present absent again show ?thesis by blast
qed

theorem C2_insert_witness:
  "reachable ex3 \<and> insert_op ex3 0 20 = ok ex3 \<and>
   (\<exists>s' t'. insert_op ex3 0 40 = ok s' \<and> root s' 0 = root_ptr t' \<and> tree_at (nodes s') t' \<and>
       keys t' = {10, 20, 30, 40} \<and> insert_op s' 0 40 = ok s')"
proof -
  from C2_insert [OF ex3_reachable, of 0 20]
  obtain t where t: "root ex3 0 = root_ptr t" "tree_at (nodes ex3) t"
      "20 \<in> keys t \<longrightarrow> insert_op ex3 0 20 = ok ex3" by blast
  have "t = ex3_tree" by (rule ex3_tree_unique [OF t(1,2)])
  with t(3) have a: "insert_op ex3 0 20 = ok ex3" by (simp add: ex3_tree_def)
  from C2_insert [OF ex3_reachable, of 0 40]
  obtain u where u: "root ex3 0 = root_ptr u" "tree_at (nodes ex3) u"
      "40 \<notin> keys u \<longrightarrow>
        (first_free (nodes ex3) 0 = None \<and> insert_op ex3 0 40 = raise BadAlloc) \<or>
        (\<exists>s' t' c c'. insert_op ex3 0 40 = ok s' \<and> root s' 0 = root_ptr t' \<and> tree_at (nodes s') t' \<and>
            keys t' = insert 40 (keys u) \<and>
            size_op ex3 0 = ok (c, ex3) \<and> size_op s' 0 = ok (c', s') \<and> unat c' = unat c + 1)"
      "\<forall>s'. insert_op ex3 0 40 = ok s' \<longrightarrow> insert_op s' 0 40 = ok s'" by blast
  have ue: "u = ex3_tree" by (rule ex3_tree_unique [OF u(1,2)])
  then have k: "keys u = {10, 20, 30}" by (auto simp: ex3_tree_def)
  with u(3) ex3_first_free obtain s' t' where s': "insert_op ex3 0 40 = ok s'" "root s' 0 = root_ptr t'"
      "tree_at (nodes s') t'" "keys t' = insert 40 (keys u)" by auto
  from s'(4) k have "keys t' = {10, 20, 30, 40}" by auto
  with s' u(4) a ex3_reachable show ?thesis by blast
qed

text \<open>
  C3. Erasing a key that the set does not hold returns the state unchanged. Erasing a key it
  holds returns a state whose tree holds exactly the other keys, with \<^verbatim>\<open>size()\<close> smaller
  by exactly 1. In both cases \<^verbatim>\<open>find\<close> of the erased key then returns the end cursor.
\<close>

theorem C3_erase:
  assumes "reachable s"
  shows "\<exists>t s' t'. root s i = root_ptr t \<and> tree_at (nodes s) t \<and>
     erase_op s i x = ok s' \<and> root s' i = root_ptr t' \<and> tree_at (nodes s') t' \<and>
     keys t' = keys t - {x} \<and>
     (x \<notin> keys t \<longrightarrow> s' = s) \<and>
     (x \<in> keys t \<longrightarrow>
        (\<exists>c c'. size_op s i = ok (c, s) \<and> size_op s' i = ok (c', s') \<and> unat c' + 1 = unat c)) \<and>
     find_op s' i x = end_op s' i"
proof -
  from assms obtain f where w: "world_inv s f" by (auto dest: reachable_world_inv)
  let ?t = "f i" and ?t' = "g_erase x (f i)"
  note t = world_inv_tree [OF w, of i]
  from w have b: "bst ?t" by (simp add: world_inv_def set_inv_def)
  from erase_world [OF w, of i x] obtain s' where s': "erase_op s i x = ok s'"
      "world_inv s' (f(i := ?t'))" by blast
  from world_inv_tree [OF s'(2), of i] have t': "root s' i = root_ptr ?t'" "tree_at (nodes s') ?t'"
    by simp_all
  have k: "keys ?t' = keys ?t - {x}" by (rule keys_g_erase [OF b])
  have absent: "x \<notin> keys ?t \<longrightarrow> s' = s" using erase_absent [OF w, of x i] s'(1) by auto
  have present: "\<exists>c c'. size_op s i = ok (c, s) \<and> size_op s' i = ok (c', s') \<and> unat c' + 1 = unat c"
    if "x \<in> keys ?t"
    using size_op_world [OF w, of i] size_op_world [OF s'(2), of i] sz_g_erase_present [OF b that]
    by simp
  from s'(2) have "bst ?t'" by (auto simp: world_inv_def set_inv_def dest: spec [of _ i])
  with k have "g_find x ?t' = None" by (simp add: g_find_None)
  with find_op_world [OF s'(2), of i x] have f: "find_op s' i x = end_op s' i"
    by (simp add: end_op_def)
  from t s'(1) t' k absent present f show ?thesis by blast
qed

theorem C3_erase_witness:
  "reachable ex3 \<and> erase_op ex3 0 40 = ok ex3 \<and>
   (\<exists>s' t'. erase_op ex3 0 20 = ok s' \<and> root s' 0 = root_ptr t' \<and> tree_at (nodes s') t' \<and>
       keys t' = {10, 30} \<and> find_op s' 0 20 = end_op s' 0)"
proof -
  from C3_erase [OF ex3_reachable, of 0 40]
  obtain t s' where t: "root ex3 0 = root_ptr t" "tree_at (nodes ex3) t"
      "erase_op ex3 0 40 = ok s'" "40 \<notin> keys t \<longrightarrow> s' = ex3" by blast
  have "t = ex3_tree" by (rule ex3_tree_unique [OF t(1,2)])
  with t(3,4) have a: "erase_op ex3 0 40 = ok ex3" by (simp add: ex3_tree_def)
  from C3_erase [OF ex3_reachable, of 0 20]
  obtain u s' t' where u: "root ex3 0 = root_ptr u" "tree_at (nodes ex3) u"
      "erase_op ex3 0 20 = ok s'" "root s' 0 = root_ptr t'" "tree_at (nodes s') t'"
      "keys t' = keys u - {20}" "find_op s' 0 20 = end_op s' 0" by blast
  have "u = ex3_tree" by (rule ex3_tree_unique [OF u(1,2)])
  with u(6) have "keys t' = {10, 30}" by (auto simp: ex3_tree_def)
  with u a ex3_reachable show ?thesis by blast
qed

text \<open>
  C4. \<^verbatim>\<open>lower_bound(x)\<close> returns without changing the state. Its cursor is the end cursor
  exactly when every stored key is less than \<open>x\<close>; otherwise it stands on a stored key
  \<open>c\<close> with \<open>x \<le> c\<close>, and no stored key \<open>k\<close> has \<open>x \<le> k < c\<close>.
\<close>

theorem C4_lower_bound:
  assumes "reachable s"
  shows "\<exists>t it e. root s i = root_ptr t \<and> tree_at (nodes s) t \<and>
     lower_bound_op s i x = ok (it, s) \<and> end_op s i = ok (e, s) \<and>
     (it_eq it e \<longleftrightarrow> (\<forall>k \<in> keys t. k < x)) \<and>
     (\<not> it_eq it e \<longrightarrow>
        (\<exists>c. it_deref s it = ok (c, s) \<and> c \<in> keys t \<and> x \<le> c \<and> (\<forall>k \<in> keys t. \<not> (x \<le> k \<and> k < c))))"
proof -
  from assms obtain f where w: "world_inv s f" by (auto dest: reachable_world_inv)
  let ?t = "f i"
  let ?it = "\<lparr>it_node = g_lower_bound x ?t, it_parent = i\<rparr>"
  let ?e = "\<lparr>it_node = None, it_parent = i\<rparr>"
  note t = world_inv_tree [OF w, of i]
  from w have b: "bst ?t" by (simp add: world_inv_def set_inv_def)
  have e: "it_eq ?it ?e \<longleftrightarrow> (\<forall>k \<in> keys ?t. k < x)"
    using g_lower_bound_None [OF b, of x] by (simp add: it_eq_def)
  have d: "\<exists>c. it_deref s ?it = ok (c, s) \<and> c \<in> keys ?t \<and> x \<le> c \<and> (\<forall>k \<in> keys ?t. \<not> (x \<le> k \<and> k < c))"
    if "\<not> it_eq ?it ?e"
  proof -
    from that obtain a where a: "g_lower_bound x ?t = Some a" by (auto simp: it_eq_def)
    from g_lower_bound_Some [OF b a] obtain c where c: "(a, c) \<in> set (inorder ?t)" "x \<le> c"
      "\<forall>k \<in> keys ?t. x \<le> k \<longrightarrow> c \<le> k" by blast
    from c(1) have ck: "c \<in> keys ?t" by (force simp: keys_inorder)
    from c(1) t have "\<exists>n. nodes s a = Some n \<and> key n = c"
      by (auto dest: tree_at_node)
    then have "it_deref s ?it = ok (c, s)" using a by (auto simp: it_deref_def)
    with ck c show ?thesis by (intro exI [of _ c]) auto
  qed
  from t lower_bound_op_world [OF w, of i x] e d show ?thesis
    by (intro exI [of _ ?t] exI [of _ ?it] exI [of _ ?e]) (simp add: end_op_def)
qed

theorem C4_lower_bound_witness:
  "reachable ex3 \<and>
   (\<exists>it. lower_bound_op ex3 0 15 = ok (it, ex3) \<and> it_deref ex3 it = ok (20, ex3)) \<and>
   (\<exists>it e. lower_bound_op ex3 0 35 = ok (it, ex3) \<and> end_op ex3 0 = ok (e, ex3) \<and> it_eq it e)"
proof -
  from C4_lower_bound [OF ex3_reachable, of 0 15]
  obtain t it e where t: "root ex3 0 = root_ptr t" "tree_at (nodes ex3) t"
      "lower_bound_op ex3 0 15 = ok (it, ex3)"
      "it_eq it e \<longleftrightarrow> (\<forall>k \<in> keys t. k < 15)"
      "\<not> it_eq it e \<longrightarrow>
        (\<exists>c. it_deref ex3 it = ok (c, ex3) \<and> c \<in> keys t \<and> 15 \<le> c \<and> (\<forall>k \<in> keys t. \<not> (15 \<le> k \<and> k < c)))"
    by blast
  have "t = ex3_tree" by (rule ex3_tree_unique [OF t(1,2)])
  then have k: "keys t = {10, 20, 30}" by (auto simp: ex3_tree_def)
  with t(4) have "\<not> it_eq it e" by simp
  with t(5) k obtain c where c: "it_deref ex3 it = ok (c, ex3)" "c = 10 \<or> c = 20 \<or> c = 30" "15 \<le> c"
      "\<not> (15 \<le> (20::nat) \<and> 20 < c)" by auto
  then have "c = 20" by auto
  with c(1) t(3) have a: "\<exists>it. lower_bound_op ex3 0 15 = ok (it, ex3) \<and> it_deref ex3 it = ok (20, ex3)"
    by blast
  from C4_lower_bound [OF ex3_reachable, of 0 35]
  obtain u it' e' where u: "root ex3 0 = root_ptr u" "tree_at (nodes ex3) u"
      "lower_bound_op ex3 0 35 = ok (it', ex3)" "end_op ex3 0 = ok (e', ex3)"
      "it_eq it' e' \<longleftrightarrow> (\<forall>k \<in> keys u. k < 35)"
    by blast
  have "u = ex3_tree" by (rule ex3_tree_unique [OF u(1,2)])
  then have "keys u = {10, 20, 30}" by (auto simp: ex3_tree_def)
  with u(5) have "it_eq it' e'" by simp
  with u(3,4) a ex3_reachable show ?thesis by blast
qed

text \<open>
  C8. At every node of the tree of a reachable state, \<^verbatim>\<open>getBalance\<close> returns, and its
  result read as a signed \<^verbatim>\<open>int\<close> is the difference of the true heights of the right and
  the left subtree (an absent subtree has height 0), although the code subtracts the two
  unsigned cached heights. \<open>subtrees t\<close> are the subtrees of \<open>t\<close> at its nodes.
\<close>

theorem C8_balance_factor:
  assumes "reachable s"
  shows "\<exists>t. root s i = root_ptr t \<and> tree_at (nodes s) t \<and>
     (\<forall>l a k r. GNode l a k r \<in> subtrees t \<longrightarrow>
        (\<exists>b. getBalance (nodes s) (Some a) = ok b \<and> sint b = int (ht r) - int (ht l)))"
proof -
  from assms obtain f where w: "world_inv s f" by (auto dest: reachable_world_inv)
  let ?t = "f i"
  note t = world_inv_tree [OF w, of i]
  from w have wf: "wft (nodes s) ?t" "avl ?t" by (simp_all add: world_inv_def set_inv_def)
  have "\<exists>b. getBalance (nodes s) (Some a) = ok b \<and> sint b = int (ht r) - int (ht l)"
    if u: "GNode l a k r \<in> subtrees ?t" for l a k r
  proof -
    from wft_subtree [OF wf(1) u] have g: "getBalance (nodes s) (Some a)
        = ok (ucast (of_nat (ht r) - of_nat (ht l) :: 64 word))"
      by (rule getBalance_wft)
    from avl_subtree [OF wf(2) u] have "\<bar>int (ht r) - int (ht l)\<bar> < 2 ^ 31" by auto
    from balance_word [OF this] g show ?thesis by blast
  qed
  with t show ?thesis by blast
qed

theorem C8_balance_factor_witness:
  "reachable exL \<and> (\<exists>b. getBalance (nodes exL) (Some 0) = ok b \<and> sint b = - 1)"
proof -
  from C8_balance_factor [OF exL_reachable, of 0]
  obtain t where t: "root exL 0 = root_ptr t" "tree_at (nodes exL) t"
      "\<forall>l a k r. GNode l a k r \<in> subtrees t \<longrightarrow>
        (\<exists>b. getBalance (nodes exL) (Some a) = ok b \<and> sint b = int (ht r) - int (ht l))"
    by blast
  have "t = exL_tree" by (rule exL_tree_unique [OF t(1,2)])
  then have "GNode (GNode GLeaf (Suc 0) 10 GLeaf) 0 20 GLeaf \<in> subtrees t"
    by (simp add: exL_tree_def)
  with t(3) have "\<exists>b. getBalance (nodes exL) (Some 0) = ok b
      \<and> sint b = int (ht (GLeaf :: nat gtree)) - int (ht (GNode GLeaf (Suc 0) (10::nat) GLeaf))"
    by blast
  with exL_reachable show ?thesis by simp
qed

text \<open>
  C9. On a reachable state none of the operations dereferences a null or released pointer,
  and each of them returns: \<^verbatim>\<open>erase\<close>, \<^verbatim>\<open>find\<close>, \<^verbatim>\<open>lower_bound\<close>, \<^verbatim>\<open>size\<close>,
  \<^verbatim>\<open>empty\<close>, \<^verbatim>\<open>begin\<close> and \<^verbatim>\<open>end\<close> normally, \<^verbatim>\<open>insert\<close> normally or with
  \<^verbatim>\<open>bad_alloc\<close>.
\<close>

theorem C9_no_null_dereference:
  assumes "reachable s"
  shows "(insert_op s i k = raise BadAlloc \<or> (\<exists>s'. insert_op s i k = ok s')) \<and>
     (\<exists>s'. erase_op s i k = ok s') \<and>
     (\<exists>it. find_op s i k = ok (it, s)) \<and>
     (\<exists>it. lower_bound_op s i k = ok (it, s)) \<and>
     (\<exists>c. size_op s i = ok (c, s)) \<and>
     (\<exists>b. empty_op s i = ok (b, s)) \<and>
     (\<exists>it. begin_op s i = ok (it, s)) \<and>
     (\<exists>it. end_op s i = ok (it, s))"
proof -
  from assms obtain f where w: "world_inv s f" by (auto dest: reachable_world_inv)
  have "insert_op s i k = raise BadAlloc \<or> (\<exists>s'. insert_op s i k = ok s')"
    using insert_op_cases [OF w, of i k] by blast
  moreover have "\<exists>s'. erase_op s i k = ok s'"
    using erase_world [OF w, of i k] by blast
  moreover have "\<exists>b. empty_op s i = ok (b, s)"
    using size_op_world(1) [OF w, of i] by (simp add: empty_op_def)
  ultimately show ?thesis
    using find_op_world [OF w, of i k] lower_bound_op_world [OF w, of i k]
      size_op_world(1) [OF w, of i] begin_op_world [OF w, of i]
    by (simp add: end_op_def)
qed

theorem C9_no_null_dereference_witness:
  "reachable ex3 \<and>
     (insert_op ex3 0 20 = raise BadAlloc \<or> (\<exists>s'. insert_op ex3 0 20 = ok s')) \<and>
     (\<exists>s'. erase_op ex3 0 20 = ok s') \<and>
     (\<exists>it. find_op ex3 0 20 = ok (it, ex3)) \<and>
     (\<exists>it. lower_bound_op ex3 0 20 = ok (it, ex3)) \<and>
     (\<exists>c. size_op ex3 0 = ok (c, ex3)) \<and>
     (\<exists>b. empty_op ex3 0 = ok (b, ex3)) \<and>
     (\<exists>it. begin_op ex3 0 = ok (it, ex3)) \<and>
     (\<exists>it. end_op ex3 0 = ok (it, ex3))"
  using C9_no_null_dereference [OF ex3_reachable, of 0 20] ex3_reachable by simp

text \<open>
  C10. The operations that only read leave the whole state as it was, on every state (reachable
  or not) on which they return: no node is added, removed or changed, and no root field.
\<close>

theorem C10_read_only:
  "(find_op s i k = ok (it, s') \<longrightarrow> s' = s) \<and>
   (lower_bound_op s i k = ok (it, s') \<longrightarrow> s' = s) \<and>
   (size_op s i = ok (c, s') \<longrightarrow> s' = s) \<and>
   (empty_op s i = ok (b, s') \<longrightarrow> s' = s) \<and>
   (begin_op s i = ok (it, s') \<longrightarrow> s' = s) \<and>
   (end_op s i = ok (it, s') \<longrightarrow> s' = s) \<and>
   (it_incr s it0 = ok (it, s') \<longrightarrow> s' = s) \<and>
   (it_decr s it0 = ok (it, s') \<longrightarrow> s' = s) \<and>
   (it_deref s it0 = ok (v, s') \<longrightarrow> s' = s)"
proof (intro conjI impI)
  assume "find_op s i k = ok (it, s')"
  then show "s' = s"
    by (auto simp: find_op_def rbind_eq_ok dest: AVLFind_frame_ok)
next
  assume "lower_bound_op s i k = ok (it, s')"
  then show "s' = s"
    by (auto simp: lower_bound_op_def rbind_eq_ok dest: AVLLowerBound_frame_ok)
next
  assume "size_op s i = ok (c, s')"
  then show "s' = s" by (auto simp: size_op_def rbind_eq_ok)
next
  assume "empty_op s i = ok (b, s')"
  then show "s' = s" by (auto simp: empty_op_def size_op_def rbind_eq_ok)
next
  assume "begin_op s i = ok (it, s')"
  then show "s' = s"
    by (auto simp: begin_op_def rbind_eq_ok dest: findMin_frame_ok)
next
  assume "end_op s i = ok (it, s')"
  then show "s' = s" by (simp add: end_op_def)
next
  assume "it_incr s it0 = ok (it, s')"
  then show "s' = s"
    by (auto simp: it_incr_def rbind_eq_ok dest: nextNode_frame)
next
  assume "it_decr s it0 = ok (it, s')"
  then show "s' = s"
    by (auto simp: it_decr_def rbind_eq_ok split: option.splits
        dest: prevNode_frame findMax_frame_ok)
next
  assume "it_deref s it0 = ok (v, s')"
  then show "s' = s" by (auto simp: it_deref_def rbind_eq_ok)
qed

theorem C10_read_only_witness:
  "(\<exists>it s'. find_op ex3 0 20 = ok (it, s') \<and> s' = ex3) \<and>
   (\<exists>it s'. it_incr ex3 \<lparr>it_node = Some 0, it_parent = 0\<rparr> = ok (it, s') \<and> s' = ex3)"
proof -
  have a: "s' = ex3" if "find_op ex3 0 20 = ok (it, s')" for it s'
    using that by (rule C10_read_only [THEN conjunct1, THEN mp])
  have b: "s' = ex3" if "it_incr ex3 it0 = ok (it, s')" for it0 it s'
    using that
    by (rule C10_read_only [THEN conjunct2, THEN conjunct2, THEN conjunct2, THEN conjunct2,
          THEN conjunct2, THEN conjunct2, THEN conjunct1, THEN mp])
  from ex3_find a have "\<exists>it s'. find_op ex3 0 20 = ok (it, s') \<and> s' = ex3" by blast
  moreover from ex3_incr b
  have "\<exists>it s'. it_incr ex3 \<lparr>it_node = Some 0, it_parent = 0\<rparr> = ok (it, s') \<and> s' = ex3"
    by blast
  ultimately show ?thesis by blast
qed

text \<open>
  C5. On a reachable state the forward loop from \<^verbatim>\<open>begin()\<close> to \<^verbatim>\<open>end()\<close> returns, visits
  exactly the stored keys, and visits them in strictly increasing order; the backward loop from
  \<^verbatim>\<open>end()\<close> down to \<^verbatim>\<open>begin()\<close> visits the same sequence reversed.
\<close>

theorem C5_traversal_order:
  assumes "reachable s"
  shows "\<exists>t ks. root s i = root_ptr t \<and> tree_at (nodes s) t \<and> set ks = keys t \<and>
     traverse_forward s i = ok (ks, s) \<and> sorted_wrt (<) ks \<and>
     traverse_backward s i = ok (rev ks, s)"
proof -
  from assms obtain f where w: "world_inv s f" by (auto dest: reachable_world_inv)
  let ?ks = "map snd (inorder (f i))"
  from w have "bst (f i)" by (simp add: world_inv_def set_inv_def)
  then have "sorted_wrt (<) ?ks" by (simp add: bst_iff_sorted)
  moreover have "set ?ks = keys (f i)" by (simp add: keys_inorder)
  ultimately show ?thesis
    using world_inv_tree [OF w, of i] traverse_world [OF w, of i] by blast
qed

theorem C5_traversal_order_witness:
  "reachable ex3 \<and> traverse_forward ex3 0 = ok ([10, 20, 30], ex3) \<and>
   traverse_backward ex3 0 = ok ([30, 20, 10], ex3)"
proof -
  from C5_traversal_order [OF ex3_reachable, of 0]
  obtain t ks where t: "root ex3 0 = root_ptr t" "tree_at (nodes ex3) t" "set ks = keys t"
      "traverse_forward ex3 0 = ok (ks, ex3)" "sorted_wrt (<) ks"
      "traverse_backward ex3 0 = ok (rev ks, ex3)" by blast
  have "t = ex3_tree" by (rule ex3_tree_unique [OF t(1,2)])
  with t(3) have "set ks = set [10, 20, 30]" by (auto simp: ex3_tree_def)
  moreover from t(5) have "sorted ks" "distinct ks" by (simp_all add: strict_sorted_iff)
  ultimately have "ks = [10, 20, 30]" by (intro sorted_distinct_set_unique) simp_all
  with t(4,6) ex3_reachable show ?thesis by simp
qed

text \<open>
  C6. On a reachable state every node's cached \<^verbatim>\<open>height\<close> and \<^verbatim>\<open>cnt\<close> are the true height
  and size of its subtree (\<open>cached_ok\<close>), and \<^verbatim>\<open>size()\<close>, which reads the root's \<^verbatim>\<open>cnt\<close>,
  is the number of stored elements: the number of nodes of the tree, and the number of cursor
  positions of the forward loop from \<^verbatim>\<open>begin()\<close> to \<^verbatim>\<open>end()\<close>.
\<close>

theorem C6_size_and_cached_fields:
  assumes "reachable s"
  shows "\<exists>t c ks. root s i = root_ptr t \<and> tree_at (nodes s) t \<and> cached_ok (nodes s) t \<and>
     size_op s i = ok (c, s) \<and> unat c = sz t \<and>
     traverse_forward s i = ok (ks, s) \<and> unat c = length ks"
proof -
  from assms obtain f where w: "world_inv s f" by (auto dest: reachable_world_inv)
  from w have "cached_ok (nodes s) (f i)" by (simp add: world_inv_def set_inv_def wft_def)
  moreover have "sz (f i) = length (map snd (inorder (f i)))" by (simp add: sz_inorder)
  ultimately show ?thesis
    using world_inv_tree [OF w, of i] traverse_world(1) [OF w, of i] size_op_world [OF w, of i]
    by (intro exI [of _ "f i"] exI [of _ "of_nat (sz (f i))"] exI [of _ "map snd (inorder (f i))"]) simp
qed

theorem C6_size_and_cached_fields_witness:
  "reachable ex3 \<and> size_op ex3 0 = ok (3, ex3) \<and>
   (\<exists>ks. traverse_forward ex3 0 = ok (ks, ex3) \<and> length ks = 3)"
proof -
  from C6_size_and_cached_fields [OF ex3_reachable, of 0]
  obtain t c ks where t: "root ex3 0 = root_ptr t" "tree_at (nodes ex3) t"
      "size_op ex3 0 = ok (c, ex3)" "unat c = sz t"
      "traverse_forward ex3 0 = ok (ks, ex3)" "unat c = length ks" by blast
  have "t = ex3_tree" by (rule ex3_tree_unique [OF t(1,2)])
  with t(4) have u: "unat c = 3" by (simp add: ex3_tree_def)
  then have "c = 3" by (simp add: word_unat_eq_iff)
  with t u ex3_reachable show ?thesis by auto
qed

text \<open>
  C7. On a reachable state the copy assignment \<^verbatim>\<open>b = a\<close> of two distinct sets, and the copy
  constructor of a new set \<open>b\<close> (its root still null) from \<open>a\<close>, either throw
  \<^verbatim>\<open>bad_alloc\<close>, and then only when the heap has no room for the copy, or return a state in
  which \<open>b\<close> is a deep copy of \<open>a\<close>: the same keys in a tree of the same shape, no node
  shared, \<open>a\<close> itself as it was, and every later erase or insert on one of the two leaving
  the nodes of the other, and what \<^verbatim>\<open>find\<close> returns on it, as they were.
\<close>

theorem C7_copy_independent:
  assumes "reachable s" "b \<noteq> a"
  shows "((copy_assign s b a = raise BadAlloc \<and> no_room s b a) \<or>
            (\<exists>s'. copy_assign s b a = ok s' \<and> deep_copy s s' b a)) \<and>
    (root s b = None \<longrightarrow>
       (copy_construct s b a = raise BadAlloc \<and> no_room s b a) \<or>
       (\<exists>s'. copy_construct s b a = ok s' \<and> deep_copy s s' b a))"
proof -
  from assms(1) obtain f where w: "world_inv s f" by (auto dest: reachable_world_inv)
  have da: "addrs (f a) \<inter> addrs (f b) = {}" using w assms(2) by (auto simp: world_inv_def)
  have "(copy_assign s b a = raise BadAlloc \<and> no_room s b a) \<or>
      (\<exists>s'. copy_assign s b a = ok s' \<and> deep_copy s s' b a)"
    using copy_assign_world [OF w assms(2)]
  proof (elim disjE conjE exE)
    fix s' t' assume c: "copy_assign s b a = ok s'" "world_inv s' (f(b := t'))" "strip t' = strip (f a)"
      "addrs t' \<inter> addrs (f a) = {}" "frame (addrs (f b) \<union> addrs t') (nodes s) (nodes s')"
    have "addrs (f a) \<inter> (addrs (f b) \<union> addrs t') = {}" using da c(4) by auto
    from deep_copyI [OF w c(2) assms(2) c(3) c(5) this] c(1) show ?thesis by blast
  next
    assume "copy_assign s b a = raise BadAlloc" "card (free_cells (nodes s)) + sz (f b) < sz (f a)"
    then show ?thesis using no_roomI [OF w] by simp
  qed
  moreover have "(copy_construct s b a = raise BadAlloc \<and> no_room s b a) \<or>
      (\<exists>s'. copy_construct s b a = ok s' \<and> deep_copy s s' b a)" if "root s b = None"
  proof -
    from world_inv_tree [OF w, of b] that have e: "f b = GLeaf" by (cases "f b") simp_all
    from copy_construct_world [OF w this, of a] show ?thesis
    proof (elim disjE conjE exE)
      fix s' t' assume c: "copy_construct s b a = ok s'" "world_inv s' (f(b := t'))"
        "strip t' = strip (f a)" "addrs t' \<subseteq> free_cells (nodes s)"
        "frame (addrs t') (nodes s) (nodes s')"
      from c(2) assms(2) have "addrs (f a) \<inter> addrs t' = {}"
        unfolding world_inv_def by (metis fun_upd_other fun_upd_same)
      from deep_copyI [OF w c(2) assms(2) c(3) c(5) this] c(1) show ?thesis by blast
    next
      assume "copy_construct s b a = raise BadAlloc" "card (free_cells (nodes s)) < sz (f a)"
      then show ?thesis using no_roomI [OF w, of b a] e by simp
    qed
  qed
  ultimately show ?thesis by blast
qed

theorem C7_copy_independent_witness:
  "copy_assign ex3 (Suc 0) 0 = ok ex3c \<and> copy_construct ex3 (Suc 0) 0 = ok ex3c \<and>
   deep_copy ex3 ex3c (Suc 0) 0"
  using C7_copy_independent [OF ex3_reachable, of "Suc 0" 0] ex3_copy_assign ex3_copy_construct
  by (simp add: raise_def ok_def)


end
